theory Spec2Isabelle
  imports Main "HOL-Library.AList"
begin

section \<open>Python values used throughout\<close>

text \<open>
  Exceptions are values: a function that can raise returns \<open>error + 'a\<close>, \<open>Inl\<close> the
  exception. A \<^verbatim>\<open>dict\<close> whose iteration order is read is an association list with
  Python's discipline: assigning to a key that is present replaces the value where the key
  stands, a new key goes to the end (\<^const>\<open>AList.update\<close>); lookup is
  \<^const>\<open>map_of\<close>.
\<close>

datatype error =
    AttributeError
  | KeyError string
  | TypeError
  | ValueError string
  | DuplicateNodeError string
  | ValidationError
  | SerializationError
  | NodeFailure string

definition and_then :: "error + 'a \<Rightarrow> ('a \<Rightarrow> error + 'b) \<Rightarrow> error + 'b" where
  "and_then r f = (case r of Inl x \<Rightarrow> Inl x | Inr v \<Rightarrow> f v)"

fun all_or_first_error :: "(error + 'a) list \<Rightarrow> error + 'a list" where
  "all_or_first_error [] = Inr []"
| "all_or_first_error (r # rs) =
     and_then r (\<lambda>v. and_then (all_or_first_error rs) (\<lambda>vs. Inr (v # vs)))"

type_synonym ('k, 'v) dict = "('k \<times> 'v) list"

section \<open>Messages\<close>

text \<open>
  The \<^verbatim>\<open>Message\<close> and tool-call classes are declared outside the files at hand; the
  records below carry the fields the specification lists for them (role, content, name,
  tool\_call\_id, tool\_calls, tools, timestamp). A tool call is read only through its
  \<^verbatim>\<open>id\<close>; the rest of it is kept as one opaque field. Optional fields are options,
  \<^verbatim>\<open>None\<close> being Python's \<^verbatim>\<open>None\<close>.
\<close>

record ToolCall =
  call_id :: string
  call_function :: string

record Message =
  role :: string
  content :: "string option"
  name :: "string option"
  tool_call_id :: "string option"
  tool_calls :: "ToolCall list option"
  tools :: "string list option"
  timestamp :: int

text \<open>
  Python's truth value of \<^verbatim>\<open>msg.tool_calls\<close>: \<^verbatim>\<open>None\<close> and the empty list are
  both false. \<open>calls_of\<close> is the list the \<^verbatim>\<open>for\<close> loop walks when the test passed.
\<close>

definition has_tool_calls :: "Message \<Rightarrow> bool" where
  "has_tool_calls m = (case tool_calls m of None \<Rightarrow> False | Some cs \<Rightarrow> cs \<noteq> [])"

definition calls_of :: "Message \<Rightarrow> ToolCall list" where
  "calls_of m = (case tool_calls m of None \<Rightarrow> [] | Some cs \<Rightarrow> cs)"

section \<open>The tool-call post-pass of \<^verbatim>\<open>LLMNode.get_command_input\<close>\<close>

text \<open>
  Step 1 (lines 108--111). The dict comprehension
  \<^verbatim>\<open>{msg.tool_call_id: msg for msg in messages if msg.tool_call_id is not None}\<close>
  walks the list from the left and a later entry overwrites an earlier one with the same
  key.
\<close>

definition tool_call_messages :: "Message list \<Rightarrow> (string, Message) dict" where
  "tool_call_messages ms =
     foldl (\<lambda>d m. case tool_call_id m of None \<Rightarrow> d | Some c \<Rightarrow> AList.update c m d) [] ms"

definition without_tool_results :: "Message list \<Rightarrow> Message list" where
  "without_tool_results ms = filter (\<lambda>m. tool_call_id m = None) ms"

text \<open>
  \<^verbatim>\<open>Message(role="tool", content=None, tool_call_id=tool_call.id)\<close>: the three fields the
  call sets, every other field from the defaults of the class, which are not in the files
  at hand and are passed in as \<open>dflt\<close>.
\<close>

definition empty_tool_message :: "Message \<Rightarrow> string \<Rightarrow> Message" where
  "empty_tool_message dflt c = dflt\<lparr>role := ''tool'', content := None, tool_call_id := Some c\<rparr>"

definition warning_text :: "string \<Rightarrow> string" where
  "warning_text c = ''Tool call message not found for id: '' @ c @ '', add an empty message''"

text \<open>\<^verbatim>\<open>list.insert(k, x)\<close>; an index past the end appends.\<close>

definition list_insert :: "nat \<Rightarrow> 'a \<Rightarrow> 'a list \<Rightarrow> 'a list" where
  "list_insert k x xs = take k xs @ x # drop k xs"

text \<open>
  The state of the loops: the list \<^verbatim>\<open>messages\<close> being edited in place and the warnings
  handed to the logger so far, oldest first.
\<close>

type_synonym pass_state = "Message list \<times> string list"

text \<open>
  The inner \<^verbatim>\<open>for tool_call in messages[i].tool_calls\<close> (lines 117--129): every round
  inserts at the same index \<open>i + 1\<close>.
\<close>

fun insert_tool_results ::
  "Message \<Rightarrow> (string, Message) dict \<Rightarrow> nat \<Rightarrow> ToolCall list \<Rightarrow> pass_state \<Rightarrow> pass_state" where
  "insert_tool_results dflt d i [] st = st"
| "insert_tool_results dflt d i (tc # tcs) (ms, log) =
     (case map_of d (call_id tc) of
        Some r \<Rightarrow> insert_tool_results dflt d i tcs (list_insert (i + 1) r ms, log)
      | None \<Rightarrow> insert_tool_results dflt d i tcs
                 (list_insert (i + 1) (empty_tool_message dflt (call_id tc)) ms,
                  log @ [warning_text (call_id tc)]))"

lemma length_insert_tool_results:
  "length (fst (insert_tool_results dflt d i tcs st)) = length (fst st) + length tcs"
  by (induction dflt d i tcs st rule: insert_tool_results.induct)
     (auto simp: list_insert_def split: option.splits)

text \<open>The \<^verbatim>\<open>while i < len(messages)\<close> loop (lines 114--132).\<close>

function pair_loop :: "Message \<Rightarrow> (string, Message) dict \<Rightarrow> nat \<Rightarrow> pass_state \<Rightarrow> pass_state" where
  "pair_loop dflt d i (ms, log) =
     (if i < length ms then
        (if has_tool_calls (ms ! i)
         then pair_loop dflt d (i + length (calls_of (ms ! i)) + 1)
                (insert_tool_results dflt d i (calls_of (ms ! i)) (ms, log))
         else pair_loop dflt d (i + 1) (ms, log))
      else (ms, log))"
  by pat_completeness auto
termination
proof (relation "measure (\<lambda>(dflt, d, i, st). length (fst st) - i)", goal_cases)
  case 1
  show ?case by simp
next
  case (2 dflt d i ms log)
  then show ?case
    using length_insert_tool_results [of dflt d i "calls_of (ms ! i)" "(ms, log)"]
    by simp
next
  case (3 dflt d i ms log)
  then show ?case by simp
qed

declare pair_loop.simps [simp del]


section \<open>Events and the event store\<close>

text \<open>
  The event classes follow the Python hierarchy: \<^verbatim>\<open>Event\<close>, then
  \<^verbatim>\<open>TopicEvent(Event)\<close>, then \<^verbatim>\<open>PublishToTopicEvent(TopicEvent)\<close> and
  \<^verbatim>\<open>ConsumeFromTopicEvent(TopicEvent)\<close>. The base classes are declared outside the
  files at hand; their fields are those their subclasses and callers read.

  The payload \<^verbatim>\<open>data\<close> is declared \<^verbatim>\<open>Union[Message, List[Message]]\<close>. In
  \<^verbatim>\<open>a_execute\<close> the engine also passes on, as data, the asynchronous generator that
  \<^verbatim>\<open>node.a_execute(execution_context, node_consumed_events)\<close> returned, without reading
  it. The body of an asynchronous generator runs only when it is read, so \<open>Live\<close> holds
  the call that is still to run: the node, the context and the consumed events (declared
  below, once consume events are).
\<close>

record ExecutionContext =
  conversation_id :: string
  execution_id :: string
  assistant_request_id :: string
  user_id :: string

record Event =
  event_id :: string
  event_type :: string
  timestamp :: string
  execution_context :: ExecutionContext

text \<open>
  The call a generator stands for: the node by its name, the context, and the consumed
  events by their event ids. (\<^verbatim>\<open>_publish_events\<close> records these events in the store in
  the same step; a payload type that held consume events, which hold payloads, would be
  circular.)
\<close>

record Suspended =
  suspended_node :: string
  suspended_context :: ExecutionContext
  suspended_input :: "string list"

datatype EventData = One Message | Many "Message list" | Live Suspended

record TopicEvent = Event +
  topic_name :: string
  offset :: int
  data :: EventData

record PublishToTopicEvent = TopicEvent +
  consumed_event_ids :: "string list"
  publisher_name :: string
  publisher_type :: string

record ConsumeFromTopicEvent = TopicEvent +
  consumer_name :: string
  consumer_type :: string

record AssistantRespondEvent = Event +
  input_data :: "Message list"
  output_data :: "Message list"

text \<open>
  What the store holds. \<^verbatim>\<open>OutputTopicEvent\<close> is a subclass of
  \<^verbatim>\<open>PublishToTopicEvent\<close> (\<^verbatim>\<open>on_event\<close> tests for it after the test for its parent),
  so \<open>is_publish\<close>, the \<^verbatim>\<open>isinstance(event, PublishToTopicEvent)\<close> test, holds of
  both. Every other kind of event (node, tool, workflow and assistant invoke events) is
  \<open>Other\<close>.
\<close>

datatype StoredEvent =
    Publish PublishToTopicEvent
  | OutputPublish PublishToTopicEvent
  | Consume ConsumeFromTopicEvent
  | AssistantRespond AssistantRespondEvent
  | Other Event
  | NoEvent

text \<open>
  \<open>NoEvent\<close> is the value \<^verbatim>\<open>None\<close>: \<^verbatim>\<open>record_event\<close> appends whatever it is
  given, and line 352 of \<^verbatim>\<open>event_driven_workflow.py\<close> gives it the result of
  \<^verbatim>\<open>publish_data\<close> unchecked. \<open>base_of\<close> is the \<^verbatim>\<open>Event\<close> part of an event;
  \<^verbatim>\<open>None\<close> has none, and reading an attribute of it raises.
\<close>

fun base_of :: "StoredEvent \<Rightarrow> Event option" where
  "base_of (Publish e) = Some (Event.truncate e)"
| "base_of (OutputPublish e) = Some (Event.truncate e)"
| "base_of (Consume e) = Some (Event.truncate e)"
| "base_of (AssistantRespond e) = Some (Event.truncate e)"
| "base_of (Other e) = Some e"
| "base_of NoEvent = None"

fun is_publish :: "StoredEvent \<Rightarrow> bool" where
  "is_publish (Publish e) = True"
| "is_publish (OutputPublish e) = True"
| "is_publish _ = False"

fun is_consume :: "StoredEvent \<Rightarrow> bool" where
  "is_consume (Consume e) = True"
| "is_consume _ = False"

fun is_assistant_respond :: "StoredEvent \<Rightarrow> bool" where
  "is_assistant_respond (AssistantRespond e) = True"
| "is_assistant_respond _ = False"

text \<open>The part of a publish or consume event that \<^verbatim>\<open>TopicEvent\<close> declares.\<close>

fun topic_part :: "StoredEvent \<Rightarrow> TopicEvent option" where
  "topic_part (Publish e) = Some (TopicEvent.truncate e)"
| "topic_part (OutputPublish e) = Some (TopicEvent.truncate e)"
| "topic_part (Consume e) = Some (TopicEvent.truncate e)"
| "topic_part _ = None"

text \<open>\<^verbatim>\<open>EventStoreInMemory\<close>: the list \<^verbatim>\<open>events\<close>, oldest first.\<close>

type_synonym EventStore = "StoredEvent list"

definition record_event :: "StoredEvent \<Rightarrow> EventStore \<Rightarrow> EventStore" where
  "record_event e store = store @ [e]"

definition record_events :: "StoredEvent list \<Rightarrow> EventStore \<Rightarrow> EventStore" where
  "record_events es store = store @ es"

text \<open>
  The two queries are list comprehensions that read
  \<^verbatim>\<open>event.execution_context\<close> of every entry: an \<^verbatim>\<open>AttributeError\<close> when an entry is
  \<^verbatim>\<open>None\<close>, else the entries of the request (of the conversation), in store order.
\<close>

definition of_request :: "string \<Rightarrow> StoredEvent \<Rightarrow> bool" where
  "of_request rid e =
     (case base_of e of
        None \<Rightarrow> False
      | Some b \<Rightarrow> assistant_request_id (execution_context b) = rid)"

definition of_conversation :: "string \<Rightarrow> StoredEvent \<Rightarrow> bool" where
  "of_conversation cid e =
     (case base_of e of
        None \<Rightarrow> False
      | Some b \<Rightarrow> conversation_id (execution_context b) = cid)"

definition get_agent_events :: "EventStore \<Rightarrow> string \<Rightarrow> error + StoredEvent list" where
  "get_agent_events store rid =
     (if NoEvent \<in> set store then Inl AttributeError
      else Inr (filter (of_request rid) store))"

definition get_conversation_events :: "EventStore \<Rightarrow> string \<Rightarrow> error + StoredEvent list" where
  "get_conversation_events store cid =
     (if NoEvent \<in> set store then Inl AttributeError
      else Inr (filter (of_conversation cid) store))"

text \<open>The event id of an entry that is an event.\<close>

definition id_of :: "StoredEvent \<Rightarrow> string" where
  "id_of e = (case base_of e of None \<Rightarrow> [] | Some b \<Rightarrow> event_id b)"


section \<open>\<^verbatim>\<open>LLMNode.get_command_input\<close>\<close>

text \<open>
  What the function uses and the files at hand do not hold, taken as parameters:
  \<^item> \<open>topology_sorted_events\<close>: \<^verbatim>\<open>EventGraph.build_graph(node_input, topic_events)\<close>
    followed by \<^verbatim>\<open>get_topology_sorted_events()\<close>, with the \<^verbatim>\<open>event\<close> of each graph node
    taken;
  \<^item> \<open>message_defaults\<close>: the defaults of the \<^verbatim>\<open>Message\<close> class;
  \<^item> \<open>to_openai_tool\<close>: \<^verbatim>\<open>FunctionSpec.to_openai_tool\<close>, a function specification and
    its tool form both kept opaque.
\<close>

type_synonym FunctionSpec = string

record Surroundings =
  topology_sorted_events ::
    "ConsumeFromTopicEvent list \<Rightarrow> (string, StoredEvent) dict \<Rightarrow> StoredEvent list"
  message_defaults :: Message
  to_openai_tool :: "FunctionSpec \<Rightarrow> string"

text \<open>
  Lines 84--92: the publish and consume events of the request, keyed by event id.
\<close>

definition topic_events_of :: "StoredEvent list \<Rightarrow> (string, StoredEvent) dict" where
  "topic_events_of agent_events =
     foldl (\<lambda>d e. if is_consume e \<or> is_publish e then AList.update (id_of e) e d else d)
       [] agent_events"

text \<open>
  Lines 100--104: \<^verbatim>\<open>event.data if isinstance(event.data, list) else [event.data]\<close>. An
  event with no \<^verbatim>\<open>data\<close> attribute raises here. A generator is no list and is wrapped as
  a one-element list; the first read of \<^verbatim>\<open>msg.tool_call_id\<close> in line 109 then raises,
  before anything is logged or changed, which the model reports at this point.
\<close>

definition event_messages :: "StoredEvent \<Rightarrow> error + Message list" where
  "event_messages e =
     (case topic_part e of
        None \<Rightarrow> Inl AttributeError
      | Some t \<Rightarrow> (case data t of
                     One m \<Rightarrow> Inr [m]
                   | Many ms \<Rightarrow> Inr ms
                   | Live g \<Rightarrow> Inl AttributeError))"

fun flatten_messages :: "StoredEvent list \<Rightarrow> error + Message list" where
  "flatten_messages [] = Inr []"
| "flatten_messages (e # es) =
     (case event_messages e of
        Inl x \<Rightarrow> Inl x
      | Inr ms \<Rightarrow> (case flatten_messages es of
                     Inl x \<Rightarrow> Inl x
                   | Inr rest \<Rightarrow> Inr (ms @ rest)))"

text \<open>Lines 106--132: both steps of the post-pass, from the flattened list.\<close>

definition pair_tool_calls :: "Message \<Rightarrow> Message list \<Rightarrow> pass_state" where
  "pair_tool_calls dflt messages =
     pair_loop dflt (tool_call_messages messages) 0 (without_tool_results messages, [])"

text \<open>
  Lines 135--137: the tools are written into the last message. The model updates the last
  list element. In Python the write goes to the object, so it also shows at any other
  position of the list that holds the same object (a tool result re-inserted twice) and in
  the stored event the message came from; only the field \<^verbatim>\<open>tools\<close> is touched, and the
  statements about the returned list below are made up to that field.
\<close>

definition attach_function_specs ::
  "(FunctionSpec \<Rightarrow> string) \<Rightarrow> FunctionSpec list \<Rightarrow> Message list \<Rightarrow> Message list" where
  "attach_function_specs to_tool specs messages =
     (if specs \<noteq> [] \<and> messages \<noteq> []
      then butlast messages @ [(last messages)\<lparr>tools := Some (map to_tool specs)\<rparr>]
      else messages)"

text \<open>The whole function: the returned list and the warnings logged.\<close>

definition get_command_input ::
  "Surroundings \<Rightarrow> FunctionSpec list \<Rightarrow> EventStore \<Rightarrow> ExecutionContext \<Rightarrow>
     ConsumeFromTopicEvent list \<Rightarrow> error + pass_state" where
  "get_command_input sur function_specs store ctx node_input =
     and_then (get_agent_events store (assistant_request_id ctx)) (\<lambda>agent_events.
       let topic_events = topic_events_of agent_events;
           node_input_events = topology_sorted_events sur node_input topic_events
       in and_then (flatten_messages node_input_events) (\<lambda>messages.
            let (paired, log) = pair_tool_calls (message_defaults sur) messages
            in Inr (attach_function_specs (to_openai_tool sur) function_specs paired, log)))"

section \<open>Topics\<close>

text \<open>
  Modelled from the spec: the \<^verbatim>\<open>Topic\<close> class and its specialisations, which are not in
  the files at hand. Section 3 of the specification gives a topic its name, the ordered
  sequence of its publish events and a cursor per consumer, the last offset that consumer
  has consumed; section 4.1 gives the operations. The publish policy is the field
  \<open>condition\<close>. The offset of an event is its position in the sequence, so the next
  offset is the length of the sequence. A consumer with no cursor yet has consumed
  nothing.

  The entry topic takes only the first publish of a run; the events of the output topic
  are \<^verbatim>\<open>OutputTopicEvent\<close>s. What the human-input topic does when input is appended is
  left open by the specification and is a parameter of the engine below.
\<close>

datatype TopicKind = PlainTopic | InputTopic | OutputTopic | HumanRequestTopic

record Topic =
  name :: string
  kind :: TopicKind
  condition :: "EventData \<Rightarrow> bool"
  topic_events :: "PublishToTopicEvent list"
  cursors :: "(string, int) dict"

definition unconsumed :: "Topic \<Rightarrow> string \<Rightarrow> PublishToTopicEvent list" where
  "unconsumed t consumer =
     (case map_of (cursors t) consumer of
        None \<Rightarrow> topic_events t
      | Some k \<Rightarrow> filter (\<lambda>e. k < offset e) (topic_events t))"

definition can_consume :: "Topic \<Rightarrow> string \<Rightarrow> bool" where
  "can_consume t consumer = (unconsumed t consumer \<noteq> [])"

definition consume :: "Topic \<Rightarrow> string \<Rightarrow> PublishToTopicEvent list \<times> Topic" where
  "consume t consumer =
     (unconsumed t consumer,
      if topic_events t = [] then t
      else t\<lparr>cursors := AList.update consumer (offset (last (topic_events t))) (cursors t)\<rparr>)"

definition reset :: "Topic \<Rightarrow> Topic" where
  "reset t = t\<lparr>topic_events := [], cursors := []\<rparr>"

definition restore_topic :: "Topic \<Rightarrow> StoredEvent \<Rightarrow> Topic" where
  "restore_topic t ev =
     (case ev of
        Publish p \<Rightarrow> t\<lparr>topic_events := topic_events t @ [p]\<rparr>
      | OutputPublish p \<Rightarrow> t\<lparr>topic_events := topic_events t @ [p]\<rparr>
      | Consume c \<Rightarrow> t\<lparr>cursors := AList.update (consumer_name c) (offset c) (cursors t)\<rparr>
      | _ \<Rightarrow> t)"

text \<open>
  \<^verbatim>\<open>publish_data\<close> without the call of the publish handler, which is the workflow's
  \<^verbatim>\<open>on_event\<close> and is applied where the engine publishes. \<open>stamp\<close> is the id and the
  timestamp the new event gets.
\<close>

definition accepts :: "Topic \<Rightarrow> EventData \<Rightarrow> bool" where
  "accepts t d = (condition t d \<and> (kind t = InputTopic \<longrightarrow> topic_events t = []))"

definition publish_data ::
  "Topic \<Rightarrow> string \<times> string \<Rightarrow> ExecutionContext \<Rightarrow> string \<Rightarrow> string \<Rightarrow> EventData \<Rightarrow>
     ConsumeFromTopicEvent list \<Rightarrow> StoredEvent option \<times> Topic" where
  "publish_data t stamp ctx pub_name pub_type d consumed_events =
     (if accepts t d then
        (let e = \<lparr>event_id = fst stamp, event_type = ''PublishToTopic'',
                  timestamp = snd stamp, execution_context = ctx,
                  topic_name = Topic.name t, offset = int (length (topic_events t)),
                  data = d, consumed_event_ids = map event_id consumed_events,
                  publisher_name = pub_name, publisher_type = pub_type\<rparr>
         in (Some (if kind t = OutputTopic then OutputPublish e else Publish e),
             t\<lparr>topic_events := topic_events t @ [e]\<rparr>))
      else (None, t))"

section \<open>Nodes\<close>

text \<open>
  Modelled from the spec: the \<^verbatim>\<open>Node\<close> contract of section 6, whose class is not in the
  files at hand, with the attributes the engine reads. A subscription expression is a
  tree of AND and OR over topics, and \<^verbatim>\<open>extract_topics\<close> lists its topics.
  \<open>node_class\<close> answers the \<^verbatim>\<open>isinstance\<close> tests of the builder, \<open>streams\<close> the
  test \<^verbatim>\<open>isinstance(node.command, LLMStreamResponseCommand)\<close>.

  The bodies of a node are outside the engine. \<open>can_execute\<close> is a function of which
  topics the node can consume from. \<open>execute\<close> and \<open>a_execute\<close> get the context,
  the consumed events and the store they may read; they give the messages (for
  \<^verbatim>\<open>a_execute\<close> the items of the generator, each a message or a list of messages) or the
  exception raised, and the node-level events that the invocation recorded in the store.
\<close>

datatype LogicalOp = AND | OR

datatype SubExpr = TopicExpr Topic | CombinedExpr LogicalOp SubExpr SubExpr

fun extract_topics :: "SubExpr \<Rightarrow> Topic list" where
  "extract_topics (TopicExpr t) = [t]"
| "extract_topics (CombinedExpr opr l r) = extract_topics l @ extract_topics r"

datatype NodeClass = LLMNode | LLMFunctionCallNode | OtherNode

datatype Chunk = Item Message | Items "Message list"

record Node =
  name :: string
  type :: string
  node_class :: NodeClass
  streams :: bool
  subscribed_expressions :: "SubExpr list"
  publish_to :: "Topic list"
  function_specs :: "FunctionSpec list"
  get_function_specs :: FunctionSpec
  can_execute :: "(string \<Rightarrow> bool) \<Rightarrow> bool"
  execute :: "ExecutionContext \<Rightarrow> ConsumeFromTopicEvent list \<Rightarrow> EventStore \<Rightarrow>
                (error + Message list) \<times> Event list"
  a_execute :: "ExecutionContext \<Rightarrow> ConsumeFromTopicEvent list \<Rightarrow> EventStore \<Rightarrow>
                (error + Chunk list) \<times> Event list"

text \<open>
  The keys of \<^verbatim>\<open>node._subscribed_topics\<close>, a dict from topic name to topic: the topics of
  the node's expressions, each name once, in the order of first mention.
\<close>

definition subscribed_topics :: "Node \<Rightarrow> string list" where
  "subscribed_topics n =
     map fst (foldl (\<lambda>d t. AList.update (Topic.name t) t d) []
                (concat (map extract_topics (subscribed_expressions n))))"

fun chunk_messages :: "Chunk \<Rightarrow> Message list" where
  "chunk_messages (Item m) = [m]"
| "chunk_messages (Items ms) = ms"


section \<open>The workflow and its builder\<close>

text \<open>
  \<^verbatim>\<open>EventDrivenWorkflow\<close>: the dicts \<^verbatim>\<open>nodes\<close>, \<^verbatim>\<open>topics\<close> and \<^verbatim>\<open>topic_nodes\<close> and the
  queue. Python holds topic objects by reference, in \<^verbatim>\<open>topics\<close>, in the
  \<^verbatim>\<open>publish_to\<close> list and in the subscriptions of each node. The model holds the state of
  a topic once, in \<open>topics\<close> under its name, and reads the topics of a node by their
  names: it takes every topic object of one name in a workflow to be the same object,
  which is how \<^verbatim>\<open>_add_topic\<close> treats them (it registers the first object of a name and
  ignores the others). Nodes do not change once the workflow is built, so the queue holds
  them as values.

  Modelled from the spec: the names of the entry and the terminal topic,
  \<^verbatim>\<open>AGENT_INPUT_TOPIC\<close> and \<^verbatim>\<open>AGENT_OUTPUT_TOPIC\<close>, constants of modules that are not in
  the files at hand. They are used as keys of \<^verbatim>\<open>topics\<close>.
\<close>

definition AGENT_INPUT_TOPIC :: string where
  "AGENT_INPUT_TOPIC = ''agent_input_topic''"

definition AGENT_OUTPUT_TOPIC :: string where
  "AGENT_OUTPUT_TOPIC = ''agent_output_topic''"

record EventDrivenWorkflow =
  name :: string
  type :: string
  nodes :: "(string, Node) dict"
  topics :: "(string, Topic) dict"
  topic_nodes :: "(string, string list) dict"
  execution_queue :: "Node list"

text \<open>\<^verbatim>\<open>k in d\<close> for a dict.\<close>

definition has_key :: "('k, 'v) dict \<Rightarrow> 'k \<Rightarrow> bool" where
  "has_key d k = (k \<in> set (map fst d))"

subsection \<open>\<^verbatim>\<open>EventDrivenWorkflow.Builder\<close>\<close>

text \<open>
  The builder holds the workflow it is building. \<open>Builder\<close> is the state after
  \<^verbatim>\<open>__init__\<close>, a workflow with its defaults.
\<close>

definition Builder :: EventDrivenWorkflow where
  "Builder = \<lparr>name = ''EventDrivenWorkflow'', type = ''EventDrivenWorkflow'', nodes = [],
     topics = [], topic_nodes = [], execution_queue = []\<rparr>"

definition node :: "EventDrivenWorkflow \<Rightarrow> Node \<Rightarrow> error + EventDrivenWorkflow" where
  "node b n =
     (if has_key (nodes b) (Node.name n) then Inl (DuplicateNodeError (Node.name n))
      else Inr (b\<lparr>nodes := AList.update (Node.name n) n (nodes b)\<rparr>))"

text \<open>
  \<^verbatim>\<open>_add_topic\<close>. The handler it sets on the topic is always the workflow's
  \<^verbatim>\<open>on_event\<close>; the model applies \<open>on_event\<close> where the engine publishes and keeps
  no handler field.
\<close>

definition add_topic :: "Topic \<Rightarrow> EventDrivenWorkflow \<Rightarrow> EventDrivenWorkflow" where
  "add_topic t b =
     (if has_key (topics b) (Topic.name t) then b
      else b\<lparr>topics := AList.update (Topic.name t) t (topics b)\<rparr>)"

text \<open>Lines 99--102: register the topic and append the node to its subscribers.\<close>

definition subscribe :: "string \<Rightarrow> Topic \<Rightarrow> EventDrivenWorkflow \<Rightarrow> EventDrivenWorkflow" where
  "subscribe node_name t b =
     (let b' = add_topic t b;
          before = (case map_of (topic_nodes b') (Topic.name t) of
                      None \<Rightarrow> [] | Some ns \<Rightarrow> ns)
      in b'\<lparr>topic_nodes := AList.update (Topic.name t) (before @ [node_name]) (topic_nodes b')\<rparr>)"

text \<open>Lines 94--110 for one entry of \<^verbatim>\<open>nodes.items()\<close>.\<close>

definition gather_topics ::
  "EventDrivenWorkflow \<Rightarrow> string \<times> Node \<Rightarrow> EventDrivenWorkflow" where
  "gather_topics b entry =
     (let b1 = foldl (\<lambda>w t. subscribe (fst entry) t w) b
                 (concat (map extract_topics (subscribed_expressions (snd entry))))
      in foldl (\<lambda>w t. add_topic t w) b1 (publish_to (snd entry)))"

text \<open>
  \<^verbatim>\<open>_handle_function_calling_nodes\<close>. A node object is named by its key in
  \<^verbatim>\<open>nodes\<close>. The dict comprehension keeps, for each topic name, a one-element list with
  the last LLM node that publishes to it. \<^verbatim>\<open>add_function_spec\<close> appends to the
  \<^verbatim>\<open>function_specs\<close> of that node.
\<close>

definition published_topics_to_nodes :: "EventDrivenWorkflow \<Rightarrow> (string, string list) dict" where
  "published_topics_to_nodes b =
     foldl (\<lambda>d kv. AList.update (fst kv) [snd kv] d) []
       (concat (map (\<lambda>entry. map (\<lambda>t. (Topic.name t, fst entry)) (publish_to (snd entry)))
                  (filter (\<lambda>entry. node_class (snd entry) = LLMNode) (nodes b))))"

definition add_function_spec :: "FunctionSpec \<Rightarrow> Node \<Rightarrow> Node" where
  "add_function_spec spec n = n\<lparr>function_specs := function_specs n @ [spec]\<rparr>"

definition link_function_node ::
  "(string, string list) dict \<Rightarrow> EventDrivenWorkflow \<Rightarrow> Node \<Rightarrow> EventDrivenWorkflow" where
  "link_function_node publishers b function_node =
     foldl (\<lambda>w publisher.
              w\<lparr>nodes := AList.map_entry publisher
                            (add_function_spec (get_function_specs function_node)) (nodes w)\<rparr>)
       b (concat (map (\<lambda>topic_name. case map_of publishers topic_name of
                                         None \<Rightarrow> [] | Some ps \<Rightarrow> ps)
                    (subscribed_topics function_node)))"

definition handle_function_calling_nodes :: "EventDrivenWorkflow \<Rightarrow> EventDrivenWorkflow" where
  "handle_function_calling_nodes b =
     (let function_calling_nodes =
            filter (\<lambda>n. node_class n = LLMFunctionCallNode) (map snd (nodes b))
      in foldl (link_function_node (published_topics_to_nodes b)) b function_calling_nodes)"

definition build :: "EventDrivenWorkflow \<Rightarrow> error + EventDrivenWorkflow" where
  "build b =
     (let b1 = foldl gather_topics b (nodes b)
      in if \<not> has_key (topics b1) AGENT_INPUT_TOPIC \<and> \<not> has_key (topics b1) AGENT_OUTPUT_TOPIC
         then Inl (ValueError ''Agent input output topic not found in workflow topics.'')
         else Inr (handle_function_calling_nodes b1))"

text \<open>
  A workflow is constructed by \<^verbatim>\<open>Builder()\<close>, one call of \<^verbatim>\<open>node\<close> per node, and
  \<^verbatim>\<open>build()\<close>; the first exception ends the construction.
\<close>

fun register :: "EventDrivenWorkflow \<Rightarrow> Node list \<Rightarrow> error + EventDrivenWorkflow" where
  "register b [] = Inr b"
| "register b (n # ns) = and_then (node b n) (\<lambda>b'. register b' ns)"

definition construct :: "Node list \<Rightarrow> error + EventDrivenWorkflow" where
  "construct ns = and_then (register Builder ns) build"


section \<open>The engine\<close>

text \<open>
  The state the engine works on: the workflow object, the event store of the container
  (a process-wide singleton), the number of events created so far, and \<open>invoked\<close>,
  a record of the node bodies that were run and the events handed to them. The last
  field has no counterpart in the code; it makes "the node is not invoked" a statement
  about the state.

  What the engine calls and the files at hand do not hold, taken as parameters:
  \<^item> \<open>new_event\<close>: the event id and the timestamp that the defaults of the \<^verbatim>\<open>Event\<close>
    class give the \<open>k\<close>-th event created;
  \<^item> \<open>can_append_user_input\<close> and \<open>append_user_input\<close> of the human-input topic:
    the latter returns the event the engine then records and the topic as it leaves it.
\<close>

record Runtime = EventDrivenWorkflow +
  event_store :: EventStore
  created :: nat
  invoked :: "(string \<times> ConsumeFromTopicEvent list) list"

record Env =
  new_event :: "nat \<Rightarrow> string \<times> string"
  can_append_user_input :: "Topic \<Rightarrow> string \<Rightarrow> PublishToTopicEvent \<Rightarrow> bool"
  append_user_input :: "Topic \<Rightarrow> PublishToTopicEvent \<Rightarrow> Message list \<Rightarrow> StoredEvent \<times> Topic"

text \<open>A workflow as built, before its first run, with a given store.\<close>

definition start :: "EventDrivenWorkflow \<Rightarrow> EventStore \<Rightarrow> Runtime" where
  "start w store =
     EventDrivenWorkflow.extend w (Runtime.fields store 0 [])"

text \<open>
  A step returns its value or the exception it raised, and in both cases the state it
  left behind.
\<close>

type_synonym 'a effect = "(error + 'a) \<times> Runtime"

definition thn :: "'a effect \<Rightarrow> ('a \<Rightarrow> Runtime \<Rightarrow> 'b effect) \<Rightarrow> 'b effect" where
  "thn r f = (case r of (Inl x, s) \<Rightarrow> (Inl x, s) | (Inr v, s) \<Rightarrow> f v s)"

subsection \<open>\<^verbatim>\<open>on_event\<close>\<close>

text \<open>\<^verbatim>\<open>node.can_execute()\<close>, read off the topics as they are.\<close>

definition ready :: "Runtime \<Rightarrow> Node \<Rightarrow> bool" where
  "ready s n =
     can_execute n (\<lambda>tn. case map_of (topics s) tn of
                            None \<Rightarrow> False
                          | Some t \<Rightarrow> can_consume t (Node.name n))"

fun enqueue_ready :: "string list \<Rightarrow> Runtime \<Rightarrow> unit effect" where
  "enqueue_ready [] s = (Inr (), s)"
| "enqueue_ready (node_name # rest) s =
     (case map_of (nodes s) node_name of
        None \<Rightarrow> (Inl (KeyError node_name), s)
      | Some n \<Rightarrow>
          enqueue_ready rest
            (if ready s n then s\<lparr>execution_queue := execution_queue s @ [n]\<rparr> else s))"

definition on_event :: "StoredEvent \<Rightarrow> Runtime \<Rightarrow> unit effect" where
  "on_event ev s =
     (case ev of
        Publish p \<Rightarrow>
          (case map_of (topic_nodes s) (topic_name p) of
             None \<Rightarrow> (Inr (), s)
           | Some subscribed_nodes \<Rightarrow> enqueue_ready subscribed_nodes s)
      | _ \<Rightarrow> (Inr (), s))"

subsection \<open>Publishing\<close>

text \<open>
  \<^verbatim>\<open>topic.publish_data(...)\<close> as the engine sees it, for the topic registered under
  \<open>tn\<close>: the topic takes the event or declines, and the handler \<^verbatim>\<open>on_event\<close> runs on
  an event taken. A name that is not registered does not occur in a built workflow,
  where every topic of every node is registered; the model publishes nothing there.
\<close>

definition publish ::
  "Env \<Rightarrow> ExecutionContext \<Rightarrow> string \<Rightarrow> string \<Rightarrow> EventData \<Rightarrow> ConsumeFromTopicEvent list \<Rightarrow>
     string \<Rightarrow> Runtime \<Rightarrow> StoredEvent option effect" where
  "publish env ctx pub_name pub_type d consumed_events tn s =
     (case map_of (topics s) tn of
        None \<Rightarrow> (Inr None, s)
      | Some t \<Rightarrow>
          (case publish_data t (new_event env (created s)) ctx pub_name pub_type d
                  consumed_events of
             (None, t') \<Rightarrow> (Inr None, s)
           | (Some ev, t') \<Rightarrow>
               thn (on_event ev (s\<lparr>topics := AList.update tn t' (topics s),
                                    created := Suc (created s)\<rparr>))
                 (\<lambda>u s'. (Inr (Some ev), s'))))"

text \<open>\<^verbatim>\<open>_publish_events\<close>: the loop over \<^verbatim>\<open>node.publish_to\<close>, then one \<^verbatim>\<open>record_events\<close>.\<close>

fun publish_all ::
  "Env \<Rightarrow> ExecutionContext \<Rightarrow> Node \<Rightarrow> EventData \<Rightarrow> ConsumeFromTopicEvent list \<Rightarrow> Topic list \<Rightarrow>
     StoredEvent list \<Rightarrow> Runtime \<Rightarrow> StoredEvent list effect" where
  "publish_all env ctx n d consumed_events [] published_events s = (Inr published_events, s)"
| "publish_all env ctx n d consumed_events (t # ts) published_events s =
     thn (publish env ctx (Node.name n) (Node.type n) d consumed_events (Topic.name t) s)
       (\<lambda>ev s'. publish_all env ctx n d consumed_events ts
                   (case ev of None \<Rightarrow> published_events | Some e \<Rightarrow> published_events @ [e]) s')"

definition publish_events ::
  "Env \<Rightarrow> Node \<Rightarrow> ExecutionContext \<Rightarrow> EventData \<Rightarrow> ConsumeFromTopicEvent list \<Rightarrow> Runtime \<Rightarrow>
     unit effect" where
  "publish_events env n ctx d consumed_events s =
     thn (publish_all env ctx n d consumed_events (publish_to n) [] s)
       (\<lambda>published_events s'.
          (Inr (), s'\<lparr>event_store :=
                        record_events (map Consume consumed_events @ published_events)
                          (event_store s')\<rparr>))"

subsection \<open>\<^verbatim>\<open>get_node_input\<close>\<close>

definition consume_event ::
  "Node \<Rightarrow> string \<times> string \<Rightarrow> PublishToTopicEvent \<Rightarrow> ConsumeFromTopicEvent" where
  "consume_event n stamp e =
     \<lparr>event_id = fst stamp, event_type = ''ConsumeFromTopic'', timestamp = snd stamp,
      execution_context = execution_context e, topic_name = topic_name e,
      offset = offset e, data = data e,
      consumer_name = Node.name n, consumer_type = Node.type n\<rparr>"

fun consume_events ::
  "Env \<Rightarrow> Node \<Rightarrow> PublishToTopicEvent list \<Rightarrow> nat \<Rightarrow> ConsumeFromTopicEvent list" where
  "consume_events env n [] k = []"
| "consume_events env n (e # es) k =
     consume_event n (new_event env k) e # consume_events env n es (Suc k)"

fun gather_input ::
  "Env \<Rightarrow> Node \<Rightarrow> string list \<Rightarrow> ConsumeFromTopicEvent list \<Rightarrow> Runtime \<Rightarrow>
     ConsumeFromTopicEvent list \<times> Runtime" where
  "gather_input env n [] consumed_events s = (consumed_events, s)"
| "gather_input env n (tn # tns) consumed_events s =
     (case map_of (topics s) tn of
        None \<Rightarrow> gather_input env n tns consumed_events s
      | Some t \<Rightarrow>
          if can_consume t (Node.name n) then
            (let node_consumed_events = fst (consume t (Node.name n));
                 t' = snd (consume t (Node.name n))
             in gather_input env n tns
                  (consumed_events @ consume_events env n node_consumed_events (created s))
                  (s\<lparr>topics := AList.update tn t' (topics s),
                     created := created s + length node_consumed_events\<rparr>))
          else gather_input env n tns consumed_events s)"

definition get_node_input ::
  "Env \<Rightarrow> Node \<Rightarrow> Runtime \<Rightarrow> ConsumeFromTopicEvent list \<times> Runtime" where
  "get_node_input env n s = gather_input env n (subscribed_topics n) [] s"

subsection \<open>\<^verbatim>\<open>execute\<close> and \<^verbatim>\<open>a_execute\<close>\<close>

text \<open>
  The body of the \<^verbatim>\<open>while\<close> loop for the node taken from the queue. Running a node body
  appends to \<open>invoked\<close> and records the node-level events of the invocation.
\<close>

definition run_body ::
  "Node \<Rightarrow> ConsumeFromTopicEvent list \<Rightarrow> Event list \<Rightarrow> Runtime \<Rightarrow> Runtime" where
  "run_body n consumed_events node_events s =
     s\<lparr>event_store := event_store s @ map Other node_events,
       invoked := invoked s @ [(Node.name n, consumed_events)]\<rparr>"

definition execute_node :: "Env \<Rightarrow> ExecutionContext \<Rightarrow> Node \<Rightarrow> Runtime \<Rightarrow> unit effect" where
  "execute_node env ctx n s =
     (let node_consumed_events = fst (get_node_input env n s);
          s1 = snd (get_node_input env n s)
      in case node_consumed_events of
           [] \<Rightarrow> (Inr (), s1)
         | c # cs \<Rightarrow>
             (case Node.execute n ctx node_consumed_events (event_store s1) of
                (Inl x, node_events) \<Rightarrow>
                  (Inl x, run_body n node_consumed_events node_events s1)
              | (Inr result, node_events) \<Rightarrow>
                  publish_events env n ctx (Many result) node_consumed_events
                    (run_body n node_consumed_events node_events s1)))"

text \<open>
  In \<^verbatim>\<open>a_execute\<close> a node whose command is an \<^verbatim>\<open>LLMStreamResponseCommand\<close> is called
  but its generator is not read: no body runs, and the generator itself is the
  \<^verbatim>\<open>result\<close>. For any other node the generator is read to its end and the items are
  gathered in a list. Both then reach the same call of \<^verbatim>\<open>_publish_events\<close>.
\<close>

definition a_execute_node :: "Env \<Rightarrow> ExecutionContext \<Rightarrow> Node \<Rightarrow> Runtime \<Rightarrow> unit effect" where
  "a_execute_node env ctx n s =
     (let node_consumed_events = fst (get_node_input env n s);
          s1 = snd (get_node_input env n s)
      in case node_consumed_events of
           [] \<Rightarrow> (Inr (), s1)
         | c # cs \<Rightarrow>
             if streams n then
               publish_events env n ctx
                 (Live \<lparr>suspended_node = Node.name n, suspended_context = ctx,
                        suspended_input = map event_id node_consumed_events\<rparr>)
                 node_consumed_events s1
             else
               (case Node.a_execute n ctx node_consumed_events (event_store s1) of
                  (Inl x, node_events) \<Rightarrow>
                    (Inl x, run_body n node_consumed_events node_events s1)
                | (Inr items, node_events) \<Rightarrow>
                    publish_events env n ctx (Many (concat (map chunk_messages items)))
                      node_consumed_events
                      (run_body n node_consumed_events node_events s1)))"

text \<open>One round of \<^verbatim>\<open>while self.execution_queue\<close>: \<^verbatim>\<open>popleft\<close>, then the body.\<close>

definition execute_step :: "Env \<Rightarrow> ExecutionContext \<Rightarrow> Runtime \<Rightarrow> unit effect" where
  "execute_step env ctx s =
     (case execution_queue s of
        [] \<Rightarrow> (Inr (), s)
      | n # rest \<Rightarrow> execute_node env ctx n (s\<lparr>execution_queue := rest\<rparr>))"

definition a_execute_step :: "Env \<Rightarrow> ExecutionContext \<Rightarrow> Runtime \<Rightarrow> unit effect" where
  "a_execute_step env ctx s =
     (case execution_queue s of
        [] \<Rightarrow> (Inr (), s)
      | n # rest \<Rightarrow> a_execute_node env ctx n (s\<lparr>execution_queue := rest\<rparr>))"

text \<open>
  The loop may go on for ever (two nodes can feed each other), so it is run on fuel:
  \<open>None\<close> when the fuel is spent with the queue not empty.
\<close>

fun run_queue :: "(Runtime \<Rightarrow> unit effect) \<Rightarrow> nat \<Rightarrow> Runtime \<Rightarrow> unit effect option" where
  "run_queue step fuel s =
     (case execution_queue s of
        [] \<Rightarrow> Some (Inr (), s)
      | n # rest \<Rightarrow>
          (case fuel of
             0 \<Rightarrow> None
           | Suc k \<Rightarrow>
               (case step s of
                  (Inl x, s') \<Rightarrow> Some (Inl x, s')
                | (Inr u, s') \<Rightarrow> run_queue step k s')))"


subsection \<open>\<^verbatim>\<open>initial_workflow\<close>\<close>

definition reset_topics :: "Runtime \<Rightarrow> Runtime" where
  "reset_topics s = s\<lparr>topics := map (\<lambda>kv. (fst kv, reset (snd kv))) (topics s)\<rparr>"

text \<open>
  Lines 323--341: the assistant respond events of the conversation keyed by event id,
  their input and output messages in the order of the dict, sorted by timestamp
  (\<^verbatim>\<open>sorted\<close> is stable, as \<^const>\<open>sort_key\<close> is), then the new input.
\<close>

definition assistant_respond_event_dict ::
  "StoredEvent list \<Rightarrow> (string, AssistantRespondEvent) dict" where
  "assistant_respond_event_dict conversation_events =
     foldl (\<lambda>d e. case e of AssistantRespond a \<Rightarrow> AList.update (event_id a) a d | _ \<Rightarrow> d)
       [] conversation_events"

definition seed_messages :: "StoredEvent list \<Rightarrow> Message list \<Rightarrow> Message list" where
  "seed_messages conversation_events inp =
     (let all_messages =
            concat (map (\<lambda>kv. AssistantRespondEvent.input_data (snd kv)
                               @ AssistantRespondEvent.output_data (snd kv))
                      (assistant_respond_event_dict conversation_events))
      in sort_key Message.timestamp all_messages @ inp)"

text \<open>
  Lines 316--352, the branch for a request with no publish or consume event in the
  store. \<^verbatim>\<open>self.topics.get\<close> gives \<^verbatim>\<open>None\<close> for a workflow without entry topic, and
  the call of \<^verbatim>\<open>publish_data\<close> on it raises. What \<^verbatim>\<open>publish_data\<close> returns is recorded
  as it is, also when it is \<^verbatim>\<open>None\<close>.
\<close>

definition fresh_run :: "Env \<Rightarrow> ExecutionContext \<Rightarrow> Message list \<Rightarrow> Runtime \<Rightarrow> unit effect" where
  "fresh_run env ctx inp s =
     (case get_conversation_events (event_store s) (conversation_id ctx) of
        Inl x \<Rightarrow> (Inl x, s)
      | Inr conversation_events \<Rightarrow>
          (case map_of (topics s) AGENT_INPUT_TOPIC of
             None \<Rightarrow> (Inl AttributeError, s)
           | Some input_topic \<Rightarrow>
               thn (publish env ctx (EventDrivenWorkflow.name s) (EventDrivenWorkflow.type s)
                      (Many (seed_messages conversation_events inp)) [] AGENT_INPUT_TOPIC s)
                 (\<lambda>ev s'. (Inr (), s'\<lparr>event_store :=
                                        record_event (case ev of None \<Rightarrow> NoEvent | Some e \<Rightarrow> e)
                                          (event_store s')\<rparr>))))"

text \<open>Lines 355--356: every stored event goes to \<^verbatim>\<open>restore_topic\<close> of its topic.\<close>

fun restore_events :: "StoredEvent list \<Rightarrow> Runtime \<Rightarrow> unit effect" where
  "restore_events [] s = (Inr (), s)"
| "restore_events (ev # evs) s =
     (case topic_part ev of
        None \<Rightarrow> (Inl AttributeError, s)
      | Some te \<Rightarrow>
          (case map_of (topics s) (topic_name te) of
             None \<Rightarrow> (Inl (KeyError (topic_name te)), s)
           | Some t \<Rightarrow>
               restore_events evs
                 (s\<lparr>topics := AList.update (topic_name te) (restore_topic t ev) (topics s)\<rparr>)))"

fun publish_part :: "StoredEvent \<Rightarrow> PublishToTopicEvent option" where
  "publish_part (Publish p) = Some p"
| "publish_part (OutputPublish p) = Some p"
| "publish_part _ = None"

text \<open>
  Lines 373--386, the loop over the subscribers of the topic of one stored publish
  event. \<^verbatim>\<open>topic\<close> is the object fetched before the loop; the model reads its state
  afresh in every round, since \<^verbatim>\<open>append_user_input\<close> may have changed it.
\<close>

fun requeue_subscribers ::
  "Env \<Rightarrow> Message list \<Rightarrow> PublishToTopicEvent \<Rightarrow> string list \<Rightarrow> Runtime \<Rightarrow> unit effect" where
  "requeue_subscribers env inp pe [] s = (Inr (), s)"
| "requeue_subscribers env inp pe (node_name # rest) s =
     (case map_of (nodes s) node_name of
        None \<Rightarrow> (Inl (KeyError node_name), s)
      | Some n \<Rightarrow>
          (case map_of (topics s) (topic_name pe) of
             None \<Rightarrow> (Inl (KeyError (topic_name pe)), s)
           | Some topic \<Rightarrow>
               if can_consume topic node_name \<and> ready s n then
                 (let s1 = (if kind topic = HumanRequestTopic
                               \<and> can_append_user_input env topic node_name pe
                            then s\<lparr>topics := AList.update (topic_name pe)
                                               (snd (append_user_input env topic pe inp))
                                               (topics s),
                                   event_store :=
                                     record_event (fst (append_user_input env topic pe inp))
                                       (event_store s)\<rparr>
                            else s)
                  in requeue_subscribers env inp pe rest
                       (s1\<lparr>execution_queue := execution_queue s1 @ [n]\<rparr>))
               else requeue_subscribers env inp pe rest s))"

text \<open>Lines 363--386, the loop over the stored publish events.\<close>

fun requeue_unprocessed ::
  "Env \<Rightarrow> Message list \<Rightarrow> PublishToTopicEvent list \<Rightarrow> Runtime \<Rightarrow> unit effect" where
  "requeue_unprocessed env inp [] s = (Inr (), s)"
| "requeue_unprocessed env inp (pe # pes) s =
     (case map_of (topic_nodes s) (topic_name pe) of
        None \<Rightarrow> requeue_unprocessed env inp pes s
      | Some subscribed_nodes \<Rightarrow>
          (case map_of (topics s) (topic_name pe) of
             None \<Rightarrow> (Inl (KeyError (topic_name pe)), s)
           | Some topic \<Rightarrow>
               thn (requeue_subscribers env inp pe subscribed_nodes s)
                 (\<lambda>u s'. requeue_unprocessed env inp pes s')))"

definition resume_run :: "Env \<Rightarrow> Message list \<Rightarrow> StoredEvent list \<Rightarrow> Runtime \<Rightarrow> unit effect" where
  "resume_run env inp events s =
     thn (restore_events events s)
       (\<lambda>u s'. requeue_unprocessed env inp (List.map_filter publish_part events) s')"

definition topic_events_in :: "StoredEvent list \<Rightarrow> StoredEvent list" where
  "topic_events_in agent_events = filter (\<lambda>e. is_publish e \<or> is_consume e) agent_events"

definition initial_workflow ::
  "Env \<Rightarrow> ExecutionContext \<Rightarrow> Message list \<Rightarrow> Runtime \<Rightarrow> unit effect" where
  "initial_workflow env ctx inp s =
     (let s0 = reset_topics s
      in case get_agent_events (event_store s0) (assistant_request_id ctx) of
           Inl x \<Rightarrow> (Inl x, s0)
         | Inr agent_events \<Rightarrow>
             (case topic_events_in agent_events of
                [] \<Rightarrow> fresh_run env ctx inp s0
              | e # es \<Rightarrow> resume_run env inp (e # es) s0))"

text \<open>
  \<^verbatim>\<open>execute\<close> and \<^verbatim>\<open>a_execute\<close>: \<^verbatim>\<open>initial_workflow\<close>, then the loop. (The decorators
  around them, which record workflow-level events, are not in the files at hand.)
\<close>

definition execute ::
  "Env \<Rightarrow> ExecutionContext \<Rightarrow> Message list \<Rightarrow> nat \<Rightarrow> Runtime \<Rightarrow> unit effect option" where
  "execute env ctx inp fuel s =
     (case initial_workflow env ctx inp s of
        (Inl x, s') \<Rightarrow> Some (Inl x, s')
      | (Inr u, s') \<Rightarrow> run_queue (execute_step env ctx) fuel s')"

definition a_execute ::
  "Env \<Rightarrow> ExecutionContext \<Rightarrow> Message list \<Rightarrow> nat \<Rightarrow> Runtime \<Rightarrow> unit effect option" where
  "a_execute env ctx inp fuel s =
     (case initial_workflow env ctx inp s of
        (Inl x, s') \<Rightarrow> Some (Inl x, s')
      | (Inr u, s') \<Rightarrow> run_queue (a_execute_step env ctx) fuel s')"


section \<open>What the post-pass is to produce\<close>

text \<open>
  The functions of this section are not translations of code: they say, in the words of
  the claims, what the list returned by \<^verbatim>\<open>get_command_input\<close> should look like, and
  the theorems compare the loops above with them.

  \<open>tool_result_for\<close> is the message that stands for one tool call: the entry of the
  dict for its id, or the synthetic empty tool message. \<open>with_results\<close> is a message
  followed by the messages for its tool calls, the last listed call first.
  \<open>warnings_for\<close> are the warnings for the calls of one message that have no entry.
\<close>

definition tool_result_for :: "Message \<Rightarrow> (string, Message) dict \<Rightarrow> ToolCall \<Rightarrow> Message" where
  "tool_result_for dflt d tc =
     (case map_of d (call_id tc) of
        Some r \<Rightarrow> r
      | None \<Rightarrow> empty_tool_message dflt (call_id tc))"

definition warnings_for :: "(string, Message) dict \<Rightarrow> ToolCall list \<Rightarrow> string list" where
  "warnings_for d tcs = map warning_text (filter (\<lambda>c. map_of d c = None) (map call_id tcs))"

definition with_results :: "Message \<Rightarrow> (string, Message) dict \<Rightarrow> Message \<Rightarrow> Message list" where
  "with_results dflt d m = m # rev (map (tool_result_for dflt d) (calls_of m))"

text \<open>
  \<open>without_tools\<close> blanks the one field the last step of the function writes;
  \<open>untagged\<close> are the messages that step 1 leaves in the list; \<open>messages_of\<close> are
  the messages of an event that has some; \<open>last_result_for\<close> is the last message of
  a list that answers a given call id.
\<close>

definition without_tools :: "Message \<Rightarrow> Message" where
  "without_tools m = m\<lparr>tools := None\<rparr>"

definition untagged :: "Message \<Rightarrow> bool" where
  "untagged m = (tool_call_id m = None)"

definition messages_of :: "StoredEvent \<Rightarrow> Message list" where
  "messages_of e = (case event_messages e of Inl x \<Rightarrow> [] | Inr ms \<Rightarrow> ms)"

definition last_result_for :: "Message list \<Rightarrow> string \<Rightarrow> Message option" where
  "last_result_for ms c =
     (let rs = filter (\<lambda>m. tool_call_id m = Some c) ms
      in if rs = [] then None else Some (last rs))"

subsection \<open>Concrete inputs\<close>

text \<open>
  The inputs at which the theorems below are evaluated. In them the event graph hands
  back the stored publish and consume events of the request in the order of the store.
\<close>

definition ex_message :: Message where
  "ex_message = \<lparr>role = ''user'', content = None, Message.name = None, tool_call_id = None,
     tool_calls = None, tools = None, timestamp = 0\<rparr>"

definition ex_call_message :: "string list \<Rightarrow> Message" where
  "ex_call_message cs = ex_message\<lparr>role := ''assistant'',
     tool_calls := Some (map (\<lambda>c. \<lparr>call_id = c, call_function = ''f''\<rparr>) cs)\<rparr>"

definition ex_result_message :: "string \<Rightarrow> string \<Rightarrow> Message" where
  "ex_result_message c txt = ex_message\<lparr>role := ''tool'', content := Some txt, tool_call_id := Some c\<rparr>"

definition ex_context :: ExecutionContext where
  "ex_context = \<lparr>conversation_id = ''conv'', execution_id = ''exec'',
     assistant_request_id = ''req'', user_id = ''''\<rparr>"

definition ex_sur :: Surroundings where
  "ex_sur = \<lparr>topology_sorted_events = (\<lambda>node_input topic_events. map snd topic_events),
     message_defaults = ex_message, to_openai_tool = (\<lambda>s. s)\<rparr>"

definition ex_publish :: "string \<Rightarrow> string \<Rightarrow> int \<Rightarrow> string list \<Rightarrow> EventData \<Rightarrow> PublishToTopicEvent" where
  "ex_publish i t k consumed d =
     \<lparr>event_id = i, event_type = ''PublishToTopic'', timestamp = '''',
      execution_context = ex_context, topic_name = t, offset = k, data = d,
      consumed_event_ids = consumed, publisher_name = ''n'', publisher_type = ''Node''\<rparr>"

definition ex_consume :: "string \<Rightarrow> string \<Rightarrow> int \<Rightarrow> EventData \<Rightarrow> ConsumeFromTopicEvent" where
  "ex_consume i t k d =
     \<lparr>event_id = i, event_type = ''ConsumeFromTopic'', timestamp = '''',
      execution_context = ex_context, topic_name = t, offset = k, data = d,
      consumer_name = ''n'', consumer_type = ''Node''\<rparr>"

definition ex_pair_data :: EventData where
  "ex_pair_data = Many [ex_call_message [''a'', ''b''], ex_result_message ''a'' ''1'',
     ex_result_message ''b'' ''2'']"

definition ex_pair_store :: EventStore where
  "ex_pair_store = [Publish (ex_publish ''p1'' ''T'' 0 [] ex_pair_data)]"

definition ex_pair_input :: "ConsumeFromTopicEvent list" where
  "ex_pair_input = [ex_consume ''c1'' ''T'' 0 ex_pair_data]"

definition ex_soft_data :: EventData where
  "ex_soft_data = Many [ex_call_message [''a'', ''c''], ex_result_message ''a'' ''1'',
     ex_result_message ''b'' ''2'']"

definition ex_soft_store :: EventStore where
  "ex_soft_store = [Publish (ex_publish ''p1'' ''T'' 0 [] ex_soft_data)]"

definition ex_soft_input :: "ConsumeFromTopicEvent list" where
  "ex_soft_input = [ex_consume ''c1'' ''T'' 0 ex_soft_data]"

definition ex_soft_flat :: "Message list" where
  "ex_soft_flat = [ex_call_message [''a'', ''c''], ex_result_message ''a'' ''1'',
     ex_result_message ''b'' ''2'']"

definition ex_causal_store :: EventStore where
  "ex_causal_store =
     [Consume (ex_consume ''c1'' ''T'' 0 (One (ex_result_message ''x'' ''42''))),
      Publish (ex_publish ''p2'' ''U'' 0 [''c1''] (One (ex_call_message [''x''])))]"

definition ex_causal_input :: "ConsumeFromTopicEvent list" where
  "ex_causal_input = [ex_consume ''c2'' ''U'' 0 (One (ex_call_message [''x'']))]"

section \<open>The event graph\<close>

text \<open>
  Modelled from the spec: the \<^verbatim>\<open>EventGraph\<close> class, which is not in the files at hand.
  Section 4.2 of the specification builds the graph from the events the node consumed
  and the publish and consume events of the request, with \<^verbatim>\<open>consumed_event_ids\<close> as
  backward edges, and orders it topologically, ties broken by publish offset.

  The events of the graph are the inputs of the node and of the nodes before it. A
  publish event names the events it consumed; a consume event has read a publish event
  (the one with its topic name and offset, by the invariant of section 3) and has
  consumed what that event names. \<open>reach\<close> gathers the events of the graph from the
  input of the node backwards, each id once. \<open>topo\<close> places, again and again, the event
  with the least offset among those that consumed nothing still to be placed (the first
  such event if several have that offset); events on a cycle, which the specification does
  not provide for, are left in the order found.
\<close>

definition offset_of :: "StoredEvent \<Rightarrow> int" where
  "offset_of e = (case topic_part e of None \<Rightarrow> 0 | Some t \<Rightarrow> offset t)"

definition publish_read ::
  "(string, StoredEvent) dict \<Rightarrow> ConsumeFromTopicEvent \<Rightarrow> PublishToTopicEvent list" where
  "publish_read te c =
     filter (\<lambda>p. topic_name p = topic_name c \<and> offset p = offset c)
       (List.map_filter publish_part (map snd te))"

definition consumed_ids :: "(string, StoredEvent) dict \<Rightarrow> StoredEvent \<Rightarrow> string list" where
  "consumed_ids te e =
     (case e of
        Publish p \<Rightarrow> consumed_event_ids p
      | OutputPublish p \<Rightarrow> consumed_event_ids p
      | Consume c \<Rightarrow> concat (map consumed_event_ids (publish_read te c))
      | _ \<Rightarrow> [])"

definition events_consumed :: "(string, StoredEvent) dict \<Rightarrow> StoredEvent \<Rightarrow> StoredEvent list" where
  "events_consumed te e = List.map_filter (map_of te) (consumed_ids te e)"

lemma events_consumed_values: "set (events_consumed te e) \<subseteq> snd ` set te"
proof
  fix a assume "a \<in> set (events_consumed te e)"
  then obtain i where "map_of te i = Some a"
    by (auto simp: events_consumed_def map_filter_def)
  then have "(i, a) \<in> set te" by (rule map_of_SomeD)
  then show "a \<in> snd ` set te" by force
qed

function reach ::
  "(string, StoredEvent) dict \<Rightarrow> StoredEvent list \<Rightarrow> StoredEvent list \<Rightarrow> StoredEvent list" where
  "reach te seen [] = seen"
| "reach te seen (e # frontier) =
     (if id_of e \<in> set (map id_of seen) then reach te seen frontier
      else reach te (seen @ [e]) (frontier @ events_consumed te e))"
  by pat_completeness auto

termination reach
proof (relation "inv_image (less_than <*lex*> less_than)
    (\<lambda>(te, seen, fr). (card (id_of ` (set fr \<union> snd ` set te) - id_of ` set seen), length fr))",
    goal_cases)
  case 1
  show ?case by (intro wf_inv_image wf_lex_prod wf_less_than)
next
  case (2 te seen e fr)
  have "card (id_of ` (set fr \<union> snd ` set te) - id_of ` set seen)
      \<le> card (id_of ` (set (e # fr) \<union> snd ` set te) - id_of ` set seen)"
    by (rule card_mono) auto
  then show ?case by auto
next
  case (3 te seen e fr)
  let ?U = "id_of ` (set (e # fr) \<union> snd ` set te)"
  let ?U' = "id_of ` (set (fr @ events_consumed te e) \<union> snd ` set te)"
  have sub: "?U' \<subseteq> ?U" using events_consumed_values [of te e] by auto
  from 3 have new: "id_of e \<notin> id_of ` set seen" by simp
  have "?U' - id_of ` set (seen @ [e]) \<subset> ?U - id_of ` set seen"
    using sub new by auto
  then have "card (?U' - id_of ` set (seen @ [e])) < card (?U - id_of ` set seen)"
    by (intro psubset_card_mono) auto
  then show ?case by simp
qed

definition free :: "(string, StoredEvent) dict \<Rightarrow> StoredEvent list \<Rightarrow> StoredEvent \<Rightarrow> bool" where
  "free te pending e =
     list_all (\<lambda>i. i \<notin> set (map id_of pending)) (consumed_ids te e)"

function topo :: "(string, StoredEvent) dict \<Rightarrow> StoredEvent list \<Rightarrow> StoredEvent list" where
  "topo te pending =
     (case filter (free te pending) pending of
        [] \<Rightarrow> pending
      | r # rs \<Rightarrow>
          (let e = arg_min_list offset_of (r # rs)
           in e # topo te (remove1 e pending)))"
  by pat_completeness auto

termination topo
proof (relation "measure (\<lambda>(te, pending). length pending)", goal_cases)
  case 1
  show ?case by simp
next
  case (2 te pending r rs e)
  have "arg_min_list offset_of (r # rs) \<in> set (r # rs)"
    by (rule arg_min_list_in) simp
  with 2 have "e \<in> set (filter (free te pending) pending)" by simp
  then have "e \<in> set pending" by simp
  then have "length pending \<noteq> 0" by auto
  with \<open>e \<in> set pending\<close> show ?case by (simp add: length_remove1)
qed

definition event_graph ::
  "ConsumeFromTopicEvent list \<Rightarrow> (string, StoredEvent) dict \<Rightarrow> StoredEvent list" where
  "event_graph node_input te =
     topo te (reach te [] (map Consume node_input))"

definition ranked ::
  "(string, StoredEvent) dict \<Rightarrow> StoredEvent list \<Rightarrow> (string \<Rightarrow> nat) \<Rightarrow> bool" where
  "ranked te es rank =
     list_all (\<lambda>e. list_all (\<lambda>i. i \<in> set (map id_of es) \<longrightarrow> rank i < rank (id_of e))
                       (consumed_ids te e)) es"

definition graph_events ::
  "ConsumeFromTopicEvent list \<Rightarrow> (string, StoredEvent) dict \<Rightarrow> StoredEvent list" where
  "graph_events node_input te = reach te [] (map Consume node_input)"

definition links :: "(string, StoredEvent) dict \<Rightarrow> StoredEvent list \<Rightarrow> (string \<times> string) set" where
  "links te es =
     {(id_of a, id_of b) | a b. a \<in> set es \<and> b \<in> set es \<and> id_of a \<in> set (consumed_ids te b)}"

definition causal :: "(string, StoredEvent) dict \<Rightarrow> StoredEvent list \<Rightarrow> bool" where
  "causal te es =
     (\<forall>j<length es. \<forall>k<length es. id_of (es ! k) \<in> set (consumed_ids te (es ! j)) \<longrightarrow> k < j)"

definition placeable :: "(string, StoredEvent) dict \<Rightarrow> StoredEvent list \<Rightarrow> nat \<Rightarrow> nat \<Rightarrow> bool" where
  "placeable te es i j =
     (\<forall>k<length es. id_of (es ! k) \<in> set (consumed_ids te (es ! j)) \<longrightarrow> k < i)"

definition least_offset_first :: "(string, StoredEvent) dict \<Rightarrow> StoredEvent list \<Rightarrow> bool" where
  "least_offset_first te es =
     (\<forall>j<length es. \<forall>i<j. placeable te es i j \<longrightarrow> offset_of (es ! i) \<le> offset_of (es ! j))"

definition graph_sur :: Surroundings where
  "graph_sur = ex_sur\<lparr>topology_sorted_events := event_graph\<rparr>"

definition ex_said :: "string \<Rightarrow> string \<Rightarrow> Message" where
  "ex_said who txt = ex_message\<lparr>role := who, content := Some txt\<rparr>"

definition ex_chain_store :: EventStore where
  "ex_chain_store =
     [Publish (ex_publish ''p0'' ''T'' 0 [] (One (ex_said ''user'' ''1''))),
      Consume (ex_consume ''c0'' ''T'' 0 (One (ex_said ''user'' ''1''))),
      Publish (ex_publish ''p1'' ''U'' 0 [''c0''] (One (ex_said ''assistant'' ''2''))),
      Consume (ex_consume ''c1'' ''U'' 0 (One (ex_said ''assistant'' ''2''))),
      Publish (ex_publish ''p2'' ''V'' 0 [''c1''] (One (ex_said ''user'' ''3'')))]"

definition ex_chain_input :: "ConsumeFromTopicEvent list" where
  "ex_chain_input = [ex_consume ''c2'' ''V'' 0 (One (ex_said ''user'' ''3''))]"

definition ex_chain_rank :: "string \<Rightarrow> nat" where
  "ex_chain_rank i = (if i = ''c0'' then 0 else if i = ''c1'' then 1 else 2)"

definition ex_tie_store :: EventStore where
  "ex_tie_store =
     [Publish (ex_publish ''pa'' ''T'' 5 [] (One ex_message)),
      Consume (ex_consume ''a'' ''T'' 5 (One ex_message)),
      Publish (ex_publish ''pb'' ''V'' 3 [] (One ex_message)),
      Publish (ex_publish ''pc'' ''U'' 0 [''a''] (One ex_message))]"

definition ex_tie_input :: "ConsumeFromTopicEvent list" where
  "ex_tie_input = [ex_consume ''c'' ''U'' 0 (One ex_message), ex_consume ''b'' ''V'' 3 (One ex_message)]"

text \<open>
  \<open>offset_ordered\<close> is the tie-break in the words of the claim: of two events with no
  chain of consumption between them, in either direction, the one with the smaller offset
  stands first.
\<close>

definition offset_ordered :: "(string, StoredEvent) dict \<Rightarrow> StoredEvent list \<Rightarrow> bool" where
  "offset_ordered te es =
     (\<forall>i<length es. \<forall>j<length es.
        (id_of (es ! i), id_of (es ! j)) \<notin> (links te es)\<^sup>+
        \<and> (id_of (es ! j), id_of (es ! i)) \<notin> (links te es)\<^sup>+
        \<and> offset_of (es ! i) < offset_of (es ! j) \<longrightarrow> i < j)"

section \<open>What the builder is to refuse\<close>

text \<open>
  The names of the topics a list of nodes refers to, in its subscription expressions and
  in its publish targets. The nodes and topics after it are the concrete inputs of the
  theorems about the builder and the engine.
\<close>

definition referenced_topics :: "Node list \<Rightarrow> string list" where
  "referenced_topics ns =
     concat (map (\<lambda>n. map Topic.name
                         (concat (map extract_topics (subscribed_expressions n)) @ publish_to n))
               ns)"

definition ex_topic :: "string \<Rightarrow> TopicKind \<Rightarrow> Topic" where
  "ex_topic nm k = \<lparr>Topic.name = nm, kind = k, condition = (\<lambda>d. True), topic_events = [],
     cursors = []\<rparr>"

definition ex_reply :: "Message list \<Rightarrow> ExecutionContext \<Rightarrow> ConsumeFromTopicEvent list \<Rightarrow>
    EventStore \<Rightarrow> (error + Message list) \<times> Event list" where
  "ex_reply ms ctx consumed store = (Inr ms, [])"

definition ex_node :: "string \<Rightarrow> Topic \<Rightarrow> Topic \<Rightarrow> Node" where
  "ex_node nm src dst =
     \<lparr>Node.name = nm, type = ''Node'', node_class = OtherNode, streams = False,
      subscribed_expressions = [TopicExpr src], publish_to = [dst], function_specs = [],
      get_function_specs = [], can_execute = (\<lambda>can. can (Topic.name src)),
      execute = ex_reply [ex_message],
      a_execute = (\<lambda>ctx consumed store. (Inr [Item ex_message], []))\<rparr>"

definition ex_entry_node :: Node where
  "ex_entry_node = ex_node ''n1'' (ex_topic AGENT_INPUT_TOPIC InputTopic)
     (ex_topic AGENT_OUTPUT_TOPIC OutputTopic)"

definition ex_stray_node :: Node where
  "ex_stray_node = ex_node ''n2'' (ex_topic ''T'' PlainTopic) (ex_topic ''U'' PlainTopic)"


section \<open>Words for the claims about the engine\<close>

text \<open>
  \<open>latest_last\<close>: no event of the topic has a larger offset than its last event, as
  in any topic filled by \<open>publish_data\<close> from empty. \<open>nothing_for\<close>: the topic
  of that name, if there is one, has nothing the consumer could consume.
\<close>

definition latest_last :: "Topic \<Rightarrow> bool" where
  "latest_last t = (\<forall>e\<in>set (topic_events t). offset e \<le> offset (last (topic_events t)))"

definition nothing_for :: "Runtime \<Rightarrow> string \<Rightarrow> string \<Rightarrow> bool" where
  "nothing_for s consumer tn =
     (case map_of (topics s) tn of None \<Rightarrow> True | Some t \<Rightarrow> \<not> can_consume t consumer)"

text \<open>
  Concrete inputs: an environment that numbers the events, a workflow built from a list
  of nodes, the state after a fresh \<^verbatim>\<open>initial_workflow\<close>, and that state after the
  node has gathered its input and has been put into the queue again.
\<close>

definition ex_env :: Env where
  "ex_env = \<lparr>new_event = (\<lambda>k. (replicate (Suc k) CHR ''e'', ''t'')),
     can_append_user_input = (\<lambda>t c pe. False),
     append_user_input = (\<lambda>t pe inp. (Publish pe, t))\<rparr>"

definition ex_built :: "Node list \<Rightarrow> EventDrivenWorkflow" where
  "ex_built ns = (case construct ns of Inl x \<Rightarrow> Builder | Inr w \<Rightarrow> w)"

definition ex_begun :: Runtime where
  "ex_begun = snd (initial_workflow ex_env ex_context [ex_message]
                     (start (ex_built [ex_entry_node]) []))"

definition ex_drained :: Runtime where
  "ex_drained = (snd (get_node_input ex_env ex_entry_node ex_begun))
                  \<lparr>execution_queue := [ex_entry_node]\<rparr>"


section \<open>Words for the claims about \<^verbatim>\<open>initial_workflow\<close>\<close>

text \<open>
  \<open>ex_sink_node\<close> reads a topic of its own and writes to the terminal topic: a
  workflow of this node alone has no entry topic. \<open>assistant_responds\<close> are the
  assistant respond events of a list of events. \<open>subscribers_known\<close>: every node
  name in \<^verbatim>\<open>topic_nodes\<close> is a key of \<^verbatim>\<open>nodes\<close>, as after \<^verbatim>\<open>build\<close>.
\<close>

definition ex_sink_node :: Node where
  "ex_sink_node = ex_node ''n3'' (ex_topic ''T'' PlainTopic)
     (ex_topic AGENT_OUTPUT_TOPIC OutputTopic)"

definition assistant_responds :: "StoredEvent list \<Rightarrow> AssistantRespondEvent list" where
  "assistant_responds es =
     List.map_filter (\<lambda>e. case e of AssistantRespond a \<Rightarrow> Some a | _ \<Rightarrow> None) es"

definition subscribers_known :: "Runtime \<Rightarrow> bool" where
  "subscribers_known s =
     (\<forall>kv\<in>set (topic_nodes s). \<forall>nn\<in>set (snd kv). has_key (nodes s) nn)"


section \<open>Serialised events\<close>

text \<open>
  \<^verbatim>\<open>to_dict\<close> builds a Python dict of strings, numbers, lists and dicts, and one string
  that \<^verbatim>\<open>json.dumps\<close> wrote. \<open>JDumped j\<close> is such a string, named by the JSON value
  \<open>j\<close> its text denotes, so that \<^verbatim>\<open>json.loads\<close> gives \<open>j\<close> back. \<open>JMsg m\<close> is
  the JSON object that \<^verbatim>\<open>to_jsonable_python\<close> writes for the message \<open>m\<close> and that
  pydantic validates back to \<open>m\<close>: how a message is laid out as JSON is the business of
  the \<^verbatim>\<open>Message\<close> class, which is not in the files at hand.
\<close>

datatype json =
    JStr string
  | JInt int
  | JArr "json list"
  | JObj "(string \<times> json) list"
  | JMsg Message
  | JDumped json

text \<open>\<^verbatim>\<open>d[k]\<close> on a dict; a later entry of a dict display overrides an earlier one.\<close>

definition item :: "json \<Rightarrow> string \<Rightarrow> error + json" where
  "item d k =
     (case d of
        JObj kvs \<Rightarrow> (case map_of kvs k of None \<Rightarrow> Inl (KeyError k) | Some v \<Rightarrow> Inr v)
      | _ \<Rightarrow> Inl TypeError)"

definition dict_display :: "(string \<times> json) list \<Rightarrow> json" where
  "dict_display kvs = JObj (foldl (\<lambda>d (k, v). AList.update k v d) [] kvs)"

text \<open>pydantic's validation of a field of type \<^verbatim>\<open>str\<close>, \<^verbatim>\<open>int\<close>, \<^verbatim>\<open>List[str]\<close>.\<close>

definition as_str :: "json \<Rightarrow> error + string" where
  "as_str j = (case j of JStr s \<Rightarrow> Inr s | _ \<Rightarrow> Inl ValidationError)"

definition as_int :: "json \<Rightarrow> error + int" where
  "as_int j = (case j of JInt n \<Rightarrow> Inr n | _ \<Rightarrow> Inl ValidationError)"

definition as_str_list :: "json \<Rightarrow> error + string list" where
  "as_str_list j =
     (case j of JArr js \<Rightarrow> all_or_first_error (map as_str js) | _ \<Rightarrow> Inl ValidationError)"

text \<open>
  \<^verbatim>\<open>json.dumps(data, default=to_jsonable_python)\<close>: a message becomes an object, a list of
  messages an array of objects. An asynchronous generator has no JSON form.
  \<^verbatim>\<open>json.loads\<close> reads the text back.
\<close>

definition json_dumps :: "EventData \<Rightarrow> error + json" where
  "json_dumps d =
     (case d of
        One m \<Rightarrow> Inr (JDumped (JMsg m))
      | Many ms \<Rightarrow> Inr (JDumped (JArr (map JMsg ms)))
      | Live g \<Rightarrow> Inl SerializationError)"

definition json_loads :: "json \<Rightarrow> error + json" where
  "json_loads j = (case j of JDumped v \<Rightarrow> Inr v | _ \<Rightarrow> Inl TypeError)"

text \<open>
  \<^verbatim>\<open>Message.model_validate(x)\<close> and \<^verbatim>\<open>TypeAdapter(List[Message]).validate_python(x)\<close>.
  The list validator takes a list; a dict is refused ("Input should be a valid list").
\<close>

definition validate_message :: "json \<Rightarrow> error + Message" where
  "validate_message j = (case j of JMsg m \<Rightarrow> Inr m | _ \<Rightarrow> Inl ValidationError)"

definition validate_message_list :: "json \<Rightarrow> error + Message list" where
  "validate_message_list j =
     (case j of
        JArr js \<Rightarrow> all_or_first_error (map validate_message js)
      | _ \<Rightarrow> Inl ValidationError)"

text \<open>
  \<^verbatim>\<open>ExecutionContext.model_dump()\<close> and \<^verbatim>\<open>model_validate\<close>: the four fields under their
  names, as the expected dict of \<^verbatim>\<open>tests/events/tool_events/test_tool_event.py\<close> shows
  them.
\<close>

definition context_dump :: "ExecutionContext \<Rightarrow> json" where
  "context_dump c =
     JObj [(''conversation_id'', JStr (conversation_id c)),
           (''execution_id'', JStr (execution_id c)),
           (''assistant_request_id'', JStr (assistant_request_id c)),
           (''user_id'', JStr (user_id c))]"

definition context_validate :: "json \<Rightarrow> error + ExecutionContext" where
  "context_validate j =
     and_then (and_then (item j ''conversation_id'') as_str) (\<lambda>cid.
     and_then (and_then (item j ''execution_id'') as_str) (\<lambda>eid.
     and_then (and_then (item j ''assistant_request_id'') as_str) (\<lambda>rid.
     and_then (and_then (item j ''user_id'') as_str) (\<lambda>uid.
       Inr \<lparr>conversation_id = cid, execution_id = eid, assistant_request_id = rid,
            user_id = uid\<rparr>))))"

text \<open>
  Modelled from the spec: \<^verbatim>\<open>Event.event_dict\<close> and \<^verbatim>\<open>Event.event_base\<close>, whose class is
  not in the files at hand. The specification asks for an envelope with event id, event
  type and timestamp; the keys, and the extra \<^verbatim>\<open>assistant_request_id\<close>, are those of the
  expected dict in \<^verbatim>\<open>test_tool_event.py\<close>. \<^verbatim>\<open>event_base\<close> returns the triple that
  \<^verbatim>\<open>from_dict\<close> indexes with 0, 1 and 2. \<open>EVENT_CONTEXT\<close> is the key of the
  type-specific block, a constant of the same absent module.
\<close>

definition EVENT_CONTEXT :: string where
  "EVENT_CONTEXT = ''event_context''"

definition event_dict :: "'a Event_scheme \<Rightarrow> (string \<times> json) list" where
  "event_dict e =
     [(''event_id'', JStr (event_id e)),
      (''event_type'', JStr (event_type e)),
      (''assistant_request_id'', JStr (assistant_request_id (execution_context e))),
      (''timestamp'', JStr (timestamp e))]"

definition event_base :: "json \<Rightarrow> error + string \<times> string \<times> string" where
  "event_base d =
     and_then (and_then (item d ''event_id'') as_str) (\<lambda>i.
     and_then (and_then (item d ''event_type'') as_str) (\<lambda>t.
     and_then (and_then (item d ''timestamp'') as_str) (\<lambda>ts.
       Inr (i, t, ts))))"

subsection \<open>\<^verbatim>\<open>PublishToTopicEvent.to_dict\<close> and \<^verbatim>\<open>from_dict\<close>\<close>

definition PublishToTopicEvent_to_dict :: "PublishToTopicEvent \<Rightarrow> error + json" where
  "PublishToTopicEvent_to_dict e =
     (let event_context = JObj
            [(''consumed_event_ids'', JArr (map JStr (consumed_event_ids e))),
             (''publisher_name'', JStr (publisher_name e)),
             (''publisher_type'', JStr (publisher_type e)),
             (''topic_name'', JStr (topic_name e)),
             (''offset'', JInt (offset e)),
             (''execution_context'', context_dump (execution_context e))]
      in and_then (json_dumps (data e)) (\<lambda>dumped.
           Inr (dict_display ([(EVENT_CONTEXT, event_context)] @ event_dict e
                               @ [(''data'', dumped)]))))"

definition PublishToTopicEvent_from_dict :: "json \<Rightarrow> error + PublishToTopicEvent" where
  "PublishToTopicEvent_from_dict d =
     and_then (item d EVENT_CONTEXT) (\<lambda>ec.
     and_then (and_then (item ec ''execution_context'') context_validate) (\<lambda>ctx.
     and_then (and_then (item d ''data'') json_loads) (\<lambda>data_dict.
     and_then (case data_dict of
                 JArr js \<Rightarrow> and_then (validate_message_list data_dict) (\<lambda>ms. Inr (Many ms))
               | _ \<Rightarrow> and_then (validate_message data_dict) (\<lambda>m. Inr (One m))) (\<lambda>data_obj.
     and_then (event_base d) (\<lambda>base_event.
     and_then (and_then (item ec ''consumed_event_ids'') as_str_list) (\<lambda>consumed.
     and_then (and_then (item ec ''publisher_name'') as_str) (\<lambda>pname.
     and_then (and_then (item ec ''publisher_type'') as_str) (\<lambda>ptype.
     and_then (and_then (item ec ''topic_name'') as_str) (\<lambda>tname.
     and_then (and_then (item ec ''offset'') as_int) (\<lambda>off.
       Inr \<lparr>event_id = fst base_event, event_type = fst (snd base_event),
            timestamp = snd (snd base_event), execution_context = ctx,
            topic_name = tname, offset = off, data = data_obj,
            consumed_event_ids = consumed, publisher_name = pname,
            publisher_type = ptype\<rparr>))))))))))"

subsection \<open>\<^verbatim>\<open>NodeRespondEvent.to_dict\<close> and \<^verbatim>\<open>from_dict\<close>\<close>

text \<open>
  Modelled from the spec: \<^verbatim>\<open>ConsumeFromTopicEvent.to_dict\<close> and \<^verbatim>\<open>from_dict\<close>, which
  \<^verbatim>\<open>NodeRespondEvent\<close> calls for each input event and which are not in the files at hand:
  the same envelope as the publish event, with the consumer in place of the publisher and
  of the consumed ids.
\<close>

definition ConsumeFromTopicEvent_to_dict :: "ConsumeFromTopicEvent \<Rightarrow> error + json" where
  "ConsumeFromTopicEvent_to_dict e =
     (let event_context = JObj
            [(''consumer_name'', JStr (consumer_name e)),
             (''consumer_type'', JStr (consumer_type e)),
             (''topic_name'', JStr (topic_name e)),
             (''offset'', JInt (offset e)),
             (''execution_context'', context_dump (execution_context e))]
      in and_then (json_dumps (data e)) (\<lambda>dumped.
           Inr (dict_display ([(EVENT_CONTEXT, event_context)] @ event_dict e
                               @ [(''data'', dumped)]))))"

definition ConsumeFromTopicEvent_from_dict :: "json \<Rightarrow> error + ConsumeFromTopicEvent" where
  "ConsumeFromTopicEvent_from_dict d =
     and_then (item d EVENT_CONTEXT) (\<lambda>ec.
     and_then (and_then (item ec ''execution_context'') context_validate) (\<lambda>ctx.
     and_then (and_then (item d ''data'') json_loads) (\<lambda>data_dict.
     and_then (case data_dict of
                 JArr js \<Rightarrow> and_then (validate_message_list data_dict) (\<lambda>ms. Inr (Many ms))
               | _ \<Rightarrow> and_then (validate_message data_dict) (\<lambda>m. Inr (One m))) (\<lambda>data_obj.
     and_then (event_base d) (\<lambda>base_event.
     and_then (and_then (item ec ''consumer_name'') as_str) (\<lambda>cname.
     and_then (and_then (item ec ''consumer_type'') as_str) (\<lambda>ctype.
     and_then (and_then (item ec ''topic_name'') as_str) (\<lambda>tname.
     and_then (and_then (item ec ''offset'') as_int) (\<lambda>off.
       Inr \<lparr>event_id = fst base_event, event_type = fst (snd base_event),
            timestamp = snd (snd base_event), execution_context = ctx,
            topic_name = tname, offset = off, data = data_obj,
            consumer_name = cname, consumer_type = ctype\<rparr>)))))))))"

text \<open>
  Modelled from the spec: \<^verbatim>\<open>NodeEvent\<close> with \<^verbatim>\<open>node_event_dict\<close> and
  \<^verbatim>\<open>node_event_base\<close>, not in the files at hand. They are laid out as their siblings for
  tool events are in \<^verbatim>\<open>test_tool_event.py\<close>: the envelope of \<^verbatim>\<open>event_dict\<close> and a
  context block with the id, name and type of the node and the execution context;
  \<^verbatim>\<open>node_event_base\<close> builds the event back from that dict.
\<close>

record NodeEvent = Event +
  node_id :: string
  node_name :: string
  node_type :: string

record NodeRespondEvent = NodeEvent +
  input_data :: "ConsumeFromTopicEvent list"
  output_data :: EventData

definition node_event_dict :: "'a NodeEvent_scheme \<Rightarrow> (string \<times> json) list" where
  "node_event_dict e =
     event_dict e @
     [(EVENT_CONTEXT, JObj
         [(''node_id'', JStr (node_id e)),
          (''node_name'', JStr (node_name e)),
          (''node_type'', JStr (node_type e)),
          (''execution_context'', context_dump (execution_context e))])]"

definition node_event_base :: "json \<Rightarrow> error + NodeEvent" where
  "node_event_base d =
     and_then (event_base d) (\<lambda>base_event.
     and_then (item d EVENT_CONTEXT) (\<lambda>ec.
     and_then (and_then (item ec ''node_id'') as_str) (\<lambda>nid.
     and_then (and_then (item ec ''node_name'') as_str) (\<lambda>nname.
     and_then (and_then (item ec ''node_type'') as_str) (\<lambda>ntype.
     and_then (and_then (item ec ''execution_context'') context_validate) (\<lambda>ctx.
       Inr \<lparr>event_id = fst base_event, event_type = fst (snd base_event),
            timestamp = snd (snd base_event), execution_context = ctx,
            node_id = nid, node_name = nname, node_type = ntype\<rparr>))))))"

text \<open>
  Lines 24--32 and 34--45 of \<^verbatim>\<open>node_respond_event.py\<close>. In \<^verbatim>\<open>from_dict\<close> the keyword
  arguments are evaluated from left to right, the output data last; it is validated as
  \<^verbatim>\<open>List[Message]\<close> whatever \<^verbatim>\<open>json.loads\<close> returned.
\<close>

definition NodeRespondEvent_to_dict :: "NodeRespondEvent \<Rightarrow> error + json" where
  "NodeRespondEvent_to_dict e =
     and_then (all_or_first_error (map ConsumeFromTopicEvent_to_dict (input_data e))) (\<lambda>ins.
     and_then (json_dumps (output_data e)) (\<lambda>dumped.
       Inr (dict_display (node_event_dict e @
              [(''data'', JObj [(''input_data'', JArr ins), (''output_data'', dumped)])]))))"

definition NodeRespondEvent_from_dict :: "json \<Rightarrow> error + NodeRespondEvent" where
  "NodeRespondEvent_from_dict d =
     and_then (node_event_base d) (\<lambda>base_event.
     and_then (and_then (item d ''data'') (\<lambda>dd. item dd ''input_data'')) (\<lambda>ins.
     and_then (case ins of
                 JArr js \<Rightarrow> all_or_first_error (map ConsumeFromTopicEvent_from_dict js)
               | _ \<Rightarrow> Inl TypeError) (\<lambda>input_events.
     and_then (and_then (and_then (item d ''data'') (\<lambda>dd. item dd ''output_data''))
                 json_loads) (\<lambda>loaded.
     and_then (validate_message_list loaded) (\<lambda>ms.
       Inr (NodeEvent.extend base_event
              (NodeRespondEvent.fields input_events (Many ms))))))))"


section \<open>What the round trip of an event needs\<close>

text \<open>
  \<open>plain_data\<close>: a payload of the declared type, a message or a list of messages.
  \<open>ex_node_respond\<close>: a node respond event with one input event and the given output.
\<close>

definition ex_node_respond :: "EventData \<Rightarrow> NodeRespondEvent" where
  "ex_node_respond d =
     \<lparr>event_id = ''e1'', event_type = ''NodeRespond'', timestamp = ''2009-02-13T23:31:30+00:00'',
      execution_context = ex_context, node_id = ''n1'', node_name = ''LLMNode'',
      node_type = ''LLMNode'',
      input_data = [ex_consume ''c1'' ''T'' 0 (One ex_message)], output_data = d\<rparr>"

definition plain_data :: "EventData \<Rightarrow> bool" where
  "plain_data d = (case d of Live g \<Rightarrow> False | _ \<Rightarrow> True)"

section \<open>Words for the claim about the asynchronous mode\<close>

text \<open>
  \<open>carries n consumed d ev\<close>: the event is a publish event of node \<open>n\<close> on one of its
  targets, with data \<open>d\<close> and the consumed events as its causes.
  \<open>generator_of\<close> is the generator of a streaming node that nobody has read.
  \<open>statics\<close> are the parts of the registered topics that no operation changes;
  \<open>keyed_by_name\<close>: each topic is registered under its own name, as after \<^verbatim>\<open>build\<close>.
  \<open>reaches\<close>: every registered target of the node that takes the data (an entry
  topic aside, which takes one event only) has an event among those published.
  Then a streaming node, the state \<open>ex_two\<close> after \<^verbatim>\<open>initial_workflow\<close> for a workflow
  of it and a second node, and \<open>outline\<close> and \<open>outcome\<close>, which show who published or
  consumed what, and whose bodies have run.
\<close>

definition carries :: "Node \<Rightarrow> ConsumeFromTopicEvent list \<Rightarrow> EventData \<Rightarrow> StoredEvent \<Rightarrow> bool" where
  "carries n consumed d ev =
     (case publish_part ev of
        None \<Rightarrow> False
      | Some p \<Rightarrow> data p = d \<and> publisher_name p = Node.name n
                  \<and> consumed_event_ids p = map event_id consumed
                  \<and> topic_name p \<in> set (map Topic.name (publish_to n)))"

definition generator_of :: "Node \<Rightarrow> ExecutionContext \<Rightarrow> ConsumeFromTopicEvent list \<Rightarrow> EventData" where
  "generator_of n ctx consumed =
     Live \<lparr>suspended_node = Node.name n, suspended_context = ctx,
           suspended_input = map event_id consumed\<rparr>"

definition static_of :: "Topic \<Rightarrow> string \<times> TopicKind \<times> (EventData \<Rightarrow> bool)" where
  "static_of t = (Topic.name t, kind t, condition t)"

definition statics :: "Runtime \<Rightarrow> string \<Rightarrow> (string \<times> TopicKind \<times> (EventData \<Rightarrow> bool)) option" where
  "statics s tn = map_option static_of (map_of (topics s) tn)"

definition keyed_by_name :: "Runtime \<Rightarrow> bool" where
  "keyed_by_name s = list_all (\<lambda>kv. Topic.name (snd kv) = fst kv) (topics s)"

definition reaches :: "Runtime \<Rightarrow> Node \<Rightarrow> EventData \<Rightarrow> StoredEvent list \<Rightarrow> bool" where
  "reaches s n d published =
     (\<forall>t\<in>set (publish_to n). \<forall>nm k c.
        statics s (Topic.name t) = Some (nm, k, c) \<and> c d \<and> k \<noteq> InputTopic \<longrightarrow>
        (\<exists>ev\<in>set published. \<exists>p. publish_part ev = Some p \<and> topic_name p = Topic.name t))"

definition ex_stream_node :: Node where
  "ex_stream_node = (ex_node ''n4'' (ex_topic AGENT_INPUT_TOPIC InputTopic)
     (ex_topic AGENT_OUTPUT_TOPIC OutputTopic))\<lparr>streams := True\<rparr>"

definition ex_two :: Runtime where
  "ex_two = snd (initial_workflow ex_env ex_context [ex_message]
                     (start (ex_built [ex_stream_node, ex_entry_node]) []))"

definition outline :: "StoredEvent \<Rightarrow> (string \<times> string \<times> EventData) option" where
  "outline ev =
     (case ev of
        Publish p \<Rightarrow> Some (publisher_name p, topic_name p, data p)
      | OutputPublish p \<Rightarrow> Some (publisher_name p, topic_name p, data p)
      | Consume c \<Rightarrow> Some (consumer_name c, topic_name c, data c)
      | _ \<Rightarrow> None)"

definition outcome ::
  "unit effect option \<Rightarrow>
     ((error + unit) \<times> (string \<times> string \<times> EventData) option list \<times> string list) option" where
  "outcome r =
     map_option (\<lambda>rs. (fst rs, map outline (event_store (snd rs)), map fst (invoked (snd rs)))) r"

definition ex_head :: Runtime where
  "ex_head = ex_two\<lparr>execution_queue := [ex_stream_node, ex_entry_node]\<rparr>"


section \<open>The post-pass as a function of the flattened list\<close>

lemma insert_tool_results_eq:
  "i < length ms \<Longrightarrow>
   insert_tool_results dflt d i tcs (ms, log) =
     (take (i + 1) ms @ rev (map (tool_result_for dflt d) tcs) @ drop (i + 1) ms,
      log @ warnings_for d tcs)"
proof (induction tcs arbitrary: ms log)
  case Nil
  then show ?case by (simp add: warnings_for_def)
next
  case (Cons tc tcs)
  let ?r = "tool_result_for dflt d tc"
  let ?ms' = "list_insert (i + 1) ?r ms"
  have len: "i < length ?ms'" using Cons.prems by (simp add: list_insert_def)
  have tk: "take (i + 1) ?ms' = take (i + 1) ms"
    using Cons.prems by (simp add: list_insert_def)
  have dr: "drop (i + 1) ?ms' = ?r # drop (i + 1) ms"
    using Cons.prems by (simp add: list_insert_def)
  show ?case
  proof (cases "map_of d (call_id tc)")
    case None
    then have r: "?r = empty_tool_message dflt (call_id tc)"
      by (simp add: tool_result_for_def)
    show ?thesis
      using None Cons.IH [OF len, of "log @ [warning_text (call_id tc)]"] tk dr r
      by (simp add: warnings_for_def)
  next
    case (Some x)
    then have r: "?r = x" by (simp add: tool_result_for_def)
    show ?thesis
      using Some Cons.IH [OF len, of log] tk dr r
      by (simp add: warnings_for_def)
  qed
qed

lemma calls_of_Nil: "\<not> has_tool_calls m \<Longrightarrow> calls_of m = []"
  by (auto simp: has_tool_calls_def calls_of_def split: option.splits)

lemma pair_loop_eq:
  "pair_loop dflt d i (ms, log) =
     (take i ms @ concat (map (with_results dflt d) (drop i ms)),
      log @ concat (map (\<lambda>m. warnings_for d (calls_of m)) (drop i ms)))"
proof (induction dflt d i "(ms, log)" arbitrary: ms log rule: pair_loop.induct)
  case (1 dflt d i ms log)
  show ?case
  proof (cases "i < length ms")
    case False
    then show ?thesis by (simp add: pair_loop.simps)
  next
    case lt: True
    then have dr: "drop i ms = ms ! i # drop (Suc i) ms"
      by (simp add: Cons_nth_drop_Suc)
    have tk: "take (Suc i) ms = take i ms @ [ms ! i]"
      using lt by (simp add: take_Suc_conv_app_nth)
    show ?thesis
    proof (cases "has_tool_calls (ms ! i)")
      case True
      let ?tcs = "calls_of (ms ! i)"
      let ?R = "rev (map (tool_result_for dflt d) ?tcs)"
      let ?ms' = "take (i + 1) ms @ ?R @ drop (i + 1) ms"
      have ins: "insert_tool_results dflt d i ?tcs (ms, log) = (?ms', log @ warnings_for d ?tcs)"
        using lt by (rule insert_tool_results_eq)
      have tk': "take (i + length ?tcs + 1) ?ms' = take (i + 1) ms @ ?R"
        using lt by simp
      have dr': "drop (i + length ?tcs + 1) ?ms' = drop (i + 1) ms"
        using lt by simp
      have "pair_loop dflt d i (ms, log) =
              pair_loop dflt d (i + length ?tcs + 1) (?ms', log @ warnings_for d ?tcs)"
        using lt True ins by (simp add: pair_loop.simps [of dflt d i ms log])
      also have "\<dots> = (take (i + length ?tcs + 1) ?ms' @
                          concat (map (with_results dflt d) (drop (i + length ?tcs + 1) ?ms')),
                        (log @ warnings_for d ?tcs) @
                          concat (map (\<lambda>m. warnings_for d (calls_of m)) (drop (i + length ?tcs + 1) ?ms')))"
        using "1.hyps"(1) [OF lt True ins] .
      finally show ?thesis
        unfolding tk' dr' by (simp add: dr tk with_results_def)
    next
      case False
      have "pair_loop dflt d i (ms, log) = pair_loop dflt d (i + 1) (ms, log)"
        using lt False by (simp add: pair_loop.simps [of dflt d i ms log])
      also have "\<dots> = (take (i + 1) ms @ concat (map (with_results dflt d) (drop (i + 1) ms)),
                        log @ concat (map (\<lambda>m. warnings_for d (calls_of m)) (drop (i + 1) ms)))"
        using "1.hyps"(2) [OF lt False] .
      finally show ?thesis
        using False by (simp add: dr tk with_results_def calls_of_Nil warnings_for_def)
    qed
  qed
qed

lemma map_of_foldl_update:
  "map_of (foldl (\<lambda>d m. case tool_call_id m of None \<Rightarrow> d | Some c \<Rightarrow> AList.update c m d) d0 ms) c =
     (case last_result_for ms c of None \<Rightarrow> map_of d0 c | Some r \<Rightarrow> Some r)"
proof (induction ms rule: rev_induct)
  case Nil
  then show ?case by (simp add: last_result_for_def)
next
  case (snoc m ms)
  show ?case
  proof (cases "tool_call_id m = Some c")
    case True
    then have "last_result_for (ms @ [m]) c = Some m"
      by (simp add: last_result_for_def)
    with True show ?thesis by (simp add: update_conv')
  next
    case False
    then have "last_result_for (ms @ [m]) c = last_result_for ms c"
      by (simp add: last_result_for_def)
    with False snoc.IH show ?thesis
      by (auto simp: update_conv' split: option.splits)
  qed
qed

lemma map_of_tool_call_messages:
  "map_of (tool_call_messages ms) c = last_result_for ms c"
  unfolding tool_call_messages_def map_of_foldl_update
  by (simp split: option.splits)

lemma last_result_for_Some:
  assumes "last_result_for ms c = Some r"
  shows "r \<in> set ms \<and> tool_call_id r = Some c"
proof -
  let ?xs = "filter (\<lambda>m. tool_call_id m = Some c) ms"
  from assms have ne: "?xs \<noteq> []" and r: "r = last ?xs"
    by (auto simp: last_result_for_def Let_def split: if_splits)
  from ne have "last ?xs \<in> set ?xs" by (rule last_in_set)
  with r show ?thesis by simp
qed

lemma tool_result_for_id:
  "tool_call_id (tool_result_for dflt (tool_call_messages flat) tc) = Some (call_id tc)"
  by (auto simp: tool_result_for_def map_of_tool_call_messages empty_tool_message_def
      split: option.splits dest: last_result_for_Some)

lemma flatten_messages_eq:
  "flatten_messages es = Inr flat \<Longrightarrow> flat = concat (map messages_of es)"
  by (induction es arbitrary: flat) (auto simp: messages_of_def split: sum.splits)

lemma map_without_tools_attach:
  "map without_tools (attach_function_specs f specs ms) = map without_tools ms"
proof (cases "specs \<noteq> [] \<and> ms \<noteq> []")
  case True
  then have "ms = butlast ms @ [last ms]" by simp
  then have "map without_tools ms = map without_tools (butlast ms) @ [without_tools (last ms)]"
    by (metis list.simps(8,9) map_append)
  with True show ?thesis
    by (simp add: attach_function_specs_def without_tools_def)
next
  case False
  then show ?thesis by (auto simp: attach_function_specs_def)
qed

lemma get_command_input_eq:
  assumes "get_agent_events store (assistant_request_id ctx) = Inr agent_events"
      and "flatten_messages (topology_sorted_events sur ni
             (topic_events_of agent_events)) = Inr flat"
  shows "get_command_input sur specs store ctx ni =
     Inr (attach_function_specs (to_openai_tool sur) specs
            (concat (map (with_results (message_defaults sur) (tool_call_messages flat))
                      (without_tool_results flat))),
          concat (map (\<lambda>m. warnings_for (tool_call_messages flat) (calls_of m))
                   (without_tool_results flat)))"
  using assms
  by (simp add: get_command_input_def and_then_def pair_tool_calls_def pair_loop_eq)

lemma get_command_input_Inr:
  assumes "get_command_input sur specs store ctx ni = Inr (res, log)"
  obtains agent_events flat where
    "get_agent_events store (assistant_request_id ctx) = Inr agent_events"
    and "flatten_messages (topology_sorted_events sur ni
             (topic_events_of agent_events)) = Inr flat"
  using assms
  by (auto simp: get_command_input_def and_then_def Let_def split: sum.splits)

lemma filter_untagged_with_results:
  "filter untagged (concat (map (with_results dflt (tool_call_messages flat)) ms)) =
     filter untagged ms"
  by (induction ms) (auto simp: with_results_def untagged_def tool_result_for_id filter_empty_conv)

section \<open>Claims about \<^verbatim>\<open>get_command_input\<close>\<close>

text \<open>
  C2, as stated, fails. The stored event carries an assistant message with the tool calls
  \<open>a\<close>, \<open>b\<close> in this order and the two tool results. Every insertion goes to index
  \<open>i + 1\<close>, so the result for \<open>b\<close>, inserted last, stands first: the message right
  behind the assistant message answers the second call, not the first.
\<close>

theorem tool_results_not_in_listed_order:
  "get_command_input ex_sur [] ex_pair_store ex_context ex_pair_input =
     Inr ([ex_call_message [''a'', ''b''], ex_result_message ''b'' ''2'',
           ex_result_message ''a'' ''1''], [])
   \<and> map call_id (calls_of (ex_call_message [''a'', ''b''])) = [''a'', ''b'']
   \<and> tool_call_id (ex_result_message ''b'' ''2'') = Some ''b''"
  by code_simp

text \<open>
  C2, amended. Whenever every event handed back by the event graph carries messages,
  \<^verbatim>\<open>get_command_input\<close> returns, and up to the field \<^verbatim>\<open>tools\<close> its list is: the
  messages without a \<^verbatim>\<open>tool_call_id\<close>, in their order, each followed at once by one tool
  message per tool call it lists, in the reverse of the listed order. The tool message for a
  call has the call's id as its \<^verbatim>\<open>tool_call_id\<close>; it is the last message of the flattened
  input with that id or, when there is none, the synthetic message with role \<open>tool\<close> and
  no content, and exactly for those a warning is logged, in the order the calls are met.
\<close>

theorem tool_call_pairing:
  assumes "get_agent_events store (assistant_request_id ctx) = Inr agent_events"
      and "flatten_messages (topology_sorted_events sur node_input
             (topic_events_of agent_events)) = Inr flat"
  shows "\<exists>res log. get_command_input sur specs store ctx node_input = Inr (res, log)
     \<and> map without_tools res =
         map without_tools
           (concat (map (with_results (message_defaults sur) (tool_call_messages flat))
                      (without_tool_results flat)))
     \<and> log = concat (map (\<lambda>m. warnings_for (tool_call_messages flat) (calls_of m))
                      (without_tool_results flat))
     \<and> (\<forall>tc. tool_call_id (tool_result_for (message_defaults sur) (tool_call_messages flat) tc)
                = Some (call_id tc)
             \<and> (case last_result_for flat (call_id tc) of
                  Some r \<Rightarrow> tool_result_for (message_defaults sur) (tool_call_messages flat) tc = r
                | None \<Rightarrow>
                    tool_result_for (message_defaults sur) (tool_call_messages flat) tc
                      = empty_tool_message (message_defaults sur) (call_id tc)))"
proof -
  have "\<And>tc. (case last_result_for flat (call_id tc) of
                  Some r \<Rightarrow> tool_result_for (message_defaults sur) (tool_call_messages flat) tc = r
                | None \<Rightarrow>
                    tool_result_for (message_defaults sur) (tool_call_messages flat) tc
                      = empty_tool_message (message_defaults sur) (call_id tc))"
    by (simp add: tool_result_for_def map_of_tool_call_messages split: option.splits)
  then show ?thesis
    using get_command_input_eq [OF assms, of specs]
    by (simp add: map_without_tools_attach tool_result_for_id)
qed

text \<open>
  The amended C2 at an input with one answered call (\<open>a\<close>), one unanswered call
  (\<open>c\<close>) and one result nobody asked for (\<open>b\<close>).
\<close>

theorem tool_call_pairing_witness:
  "get_agent_events ex_soft_store (assistant_request_id ex_context) = Inr ex_soft_store
   \<and> flatten_messages (topology_sorted_events ex_sur ex_soft_input
       (topic_events_of ex_soft_store)) = Inr ex_soft_flat
   \<and> (\<exists>res log. get_command_input ex_sur [] ex_soft_store ex_context ex_soft_input = Inr (res, log)
         \<and> map without_tools res =
             [ex_call_message [''a'', ''c''], empty_tool_message ex_message ''c'',
              ex_result_message ''a'' ''1'']
         \<and> log = [warning_text ''c''])"
proof -
  have g: "get_agent_events ex_soft_store (assistant_request_id ex_context) = Inr ex_soft_store"
    by code_simp
  have h: "flatten_messages (topology_sorted_events ex_sur ex_soft_input
       (topic_events_of ex_soft_store)) = Inr ex_soft_flat"
    by code_simp
  have v: "map without_tools
             (concat (map (with_results (message_defaults ex_sur) (tool_call_messages ex_soft_flat))
                        (without_tool_results ex_soft_flat))) =
           [ex_call_message [''a'', ''c''], empty_tool_message ex_message ''c'',
            ex_result_message ''a'' ''1'']"
    by code_simp
  have w: "concat (map (\<lambda>m. warnings_for (tool_call_messages ex_soft_flat) (calls_of m))
                     (without_tool_results ex_soft_flat)) = [warning_text ''c'']"
    by code_simp
  from tool_call_pairing [OF g h, of "[]"] obtain res log where
    run: "get_command_input ex_sur [] ex_soft_store ex_context ex_soft_input = Inr (res, log)"
    and res: "map without_tools res = map without_tools
             (concat (map (with_results (message_defaults ex_sur) (tool_call_messages ex_soft_flat))
                        (without_tool_results ex_soft_flat)))"
    and log: "log = concat (map (\<lambda>m. warnings_for (tool_call_messages ex_soft_flat) (calls_of m))
                     (without_tool_results ex_soft_flat))"
    by blast
  from res have "map without_tools res =
      [ex_call_message [''a'', ''c''], empty_tool_message ex_message ''c'',
       ex_result_message ''a'' ''1'']"
    by (simp only: v)
  moreover from log have "log = [warning_text ''c'']"
    by (simp only: w)
  ultimately show ?thesis
    using g h run by (intro conjI exI [of _ res] exI [of _ log])
qed

section \<open>What is kept and what is dropped\<close>

lemma untagged_without_tools [simp]: "untagged (without_tools m) = untagged m"
  by (simp add: untagged_def without_tools_def)

lemma tool_call_id_without_tools [simp]: "tool_call_id (without_tools m) = tool_call_id m"
  by (simp add: without_tools_def)

lemma filter_untagged_map_without_tools:
  "filter untagged (map without_tools ms) = map without_tools (filter untagged ms)"
  by (induction ms) auto

lemma without_tool_results_eq: "without_tool_results ms = filter untagged ms"
  by (simp add: without_tool_results_def untagged_def [abs_def])

lemma tagged_in_with_results:
  assumes "b \<in> set (concat (map (with_results dflt (tool_call_messages flat)) (filter untagged flat)))"
      and "tool_call_id b = Some c"
  shows "\<exists>m\<in>set flat. untagged m \<and> c \<in> set (map call_id (calls_of m))
           \<and> b = (case last_result_for flat c of
                     Some r \<Rightarrow> r | None \<Rightarrow> empty_tool_message dflt c)"
proof -
  from assms(1) obtain m where m: "m \<in> set flat" "untagged m"
    and b: "b \<in> set (with_results dflt (tool_call_messages flat) m)"
    by auto
  from b m(2) assms(2) obtain tc where tc: "tc \<in> set (calls_of m)"
    and bt: "b = tool_result_for dflt (tool_call_messages flat) tc"
    by (auto simp: with_results_def untagged_def)
  from bt assms(2) have c: "call_id tc = c"
    by (simp add: tool_result_for_id)
  have "b = (case last_result_for flat c of Some r \<Rightarrow> r | None \<Rightarrow> empty_tool_message dflt c)"
    using bt c by (auto simp: tool_result_for_def map_of_tool_call_messages split: option.splits)
  with m tc c show ?thesis by force
qed

lemma result_up_to_tools:
  assumes "get_command_input sur specs store ctx node_input = Inr (res, log)"
      and "get_agent_events store (assistant_request_id ctx) = Inr agent_events"
      and "flatten_messages (topology_sorted_events sur node_input
             (topic_events_of agent_events)) = Inr flat"
  shows "map without_tools res =
     map without_tools
       (concat (map (with_results (message_defaults sur) (tool_call_messages flat))
                  (filter untagged flat)))"
  using get_command_input_eq [OF assms(2,3), of specs] assms(1)
  by (simp add: map_without_tools_attach without_tool_results_eq)

lemma untagged_kept:
  assumes "get_command_input sur specs store ctx node_input = Inr (res, log)"
      and "get_agent_events store (assistant_request_id ctx) = Inr agent_events"
      and "flatten_messages (topology_sorted_events sur node_input
             (topic_events_of agent_events)) = Inr flat"
  shows "map without_tools (filter untagged res) = map without_tools (filter untagged flat)"
proof -
  let ?body = "concat (map (with_results (message_defaults sur) (tool_call_messages flat))
                  (filter untagged flat))"
  note res = result_up_to_tools [OF assms]
  have "map without_tools (filter untagged res) = filter untagged (map without_tools res)"
    by (simp add: filter_untagged_map_without_tools)
  also have "\<dots> = map without_tools (filter untagged ?body)"
    by (simp add: res filter_untagged_map_without_tools)
  also have "filter untagged ?body = filter untagged (filter untagged flat)"
    by (rule filter_untagged_with_results)
  finally show ?thesis by simp
qed

text \<open>
  C9. In the list \<^verbatim>\<open>get_command_input\<close> returns, read up to the field \<^verbatim>\<open>tools\<close>:
  the messages without a \<^verbatim>\<open>tool_call_id\<close> are those of the flattened input, in the same
  order; a message with \<^verbatim>\<open>tool_call_id\<close> \<open>c\<close> is there only if a message without
  \<^verbatim>\<open>tool_call_id\<close> lists a tool call with id \<open>c\<close>, and it is then the last message
  of the flattened input with that id (or the synthetic one when there is none); hence a
  tool result whose id no such message lists is not in the list at all.
\<close>

theorem tool_results_kept_only_when_called:
  assumes "get_command_input sur specs store ctx node_input = Inr (res, log)"
      and "get_agent_events store (assistant_request_id ctx) = Inr agent_events"
      and "flatten_messages (topology_sorted_events sur node_input
             (topic_events_of agent_events)) = Inr flat"
  shows "map without_tools (filter untagged res) = map without_tools (filter untagged flat)
     \<and> (\<forall>r\<in>set res. \<forall>c. tool_call_id r = Some c \<longrightarrow>
           (\<exists>m\<in>set flat. untagged m \<and> c \<in> set (map call_id (calls_of m)))
         \<and> without_tools r =
             without_tools (case last_result_for flat c of
                              Some x \<Rightarrow> x
                            | None \<Rightarrow> empty_tool_message (message_defaults sur) c))
     \<and> (\<forall>m\<in>set flat. \<forall>c. tool_call_id m = Some c
           \<and> (\<forall>u\<in>set flat. untagged u \<longrightarrow> c \<notin> set (map call_id (calls_of u)))
           \<longrightarrow> (\<forall>r\<in>set res. tool_call_id r \<noteq> Some c))"
proof -
  let ?body = "concat (map (with_results (message_defaults sur) (tool_call_messages flat))
                  (filter untagged flat))"
  note res = result_up_to_tools [OF assms]
  note kept = untagged_kept [OF assms]
  have tagged: "(\<exists>m\<in>set flat. untagged m \<and> c \<in> set (map call_id (calls_of m)))
         \<and> without_tools r =
             without_tools (case last_result_for flat c of
                              Some x \<Rightarrow> x
                            | None \<Rightarrow> empty_tool_message (message_defaults sur) c)"
    if r: "r \<in> set res" and c: "tool_call_id r = Some c" for r c
  proof -
    from r have "without_tools r \<in> set (map without_tools ?body)"
      unfolding res [symmetric] by simp
    then obtain b where b: "b \<in> set ?body" and rb: "without_tools r = without_tools b"
      by auto
    from rb c have "tool_call_id b = Some c"
      by (metis tool_call_id_without_tools)
    from tagged_in_with_results [OF b this] rb show ?thesis by auto
  qed
  have dropped: "\<forall>r\<in>set res. tool_call_id r \<noteq> Some c"
    if "\<forall>u\<in>set flat. untagged u \<longrightarrow> c \<notin> set (map call_id (calls_of u))" for c
    using that tagged by blast
  from kept tagged dropped show ?thesis by blast
qed

text \<open>
  C9 at the input above: the result for \<open>b\<close> is in the flattened input, no message
  calls \<open>b\<close>, and the result is not in the returned list.
\<close>

theorem tool_results_kept_only_when_called_witness:
  "get_command_input ex_sur [] ex_soft_store ex_context ex_soft_input =
     Inr ([ex_call_message [''a'', ''c''], empty_tool_message ex_message ''c'',
           ex_result_message ''a'' ''1''], [warning_text ''c''])
   \<and> get_agent_events ex_soft_store (assistant_request_id ex_context) = Inr ex_soft_store
   \<and> flatten_messages (topology_sorted_events ex_sur ex_soft_input
         (topic_events_of ex_soft_store)) = Inr ex_soft_flat
   \<and> ex_result_message ''b'' ''2'' \<in> set ex_soft_flat
   \<and> ex_result_message ''b'' ''2'' \<notin>
        set [ex_call_message [''a'', ''c''], empty_tool_message ex_message ''c'',
             ex_result_message ''a'' ''1'']"
proof -
  let ?res = "[ex_call_message [''a'', ''c''], empty_tool_message ex_message ''c'',
               ex_result_message ''a'' ''1'']"
  have run: "get_command_input ex_sur [] ex_soft_store ex_context ex_soft_input =
     Inr (?res, [warning_text ''c''])"
    by code_simp
  have g: "get_agent_events ex_soft_store (assistant_request_id ex_context) = Inr ex_soft_store"
    by code_simp
  have h: "flatten_messages (topology_sorted_events ex_sur ex_soft_input
       (topic_events_of ex_soft_store)) = Inr ex_soft_flat"
    by code_simp
  have b: "ex_result_message ''b'' ''2'' \<in> set ex_soft_flat"
    by (simp add: ex_soft_flat_def)
  have id: "tool_call_id (ex_result_message ''b'' ''2'') = Some ''b''"
    by (simp add: ex_result_message_def)
  have unref: "\<forall>u\<in>set ex_soft_flat. untagged u \<longrightarrow> ''b'' \<notin> set (map call_id (calls_of u))"
    by (auto simp: ex_soft_flat_def untagged_def calls_of_def ex_call_message_def
        ex_result_message_def ex_message_def)
  from tool_results_kept_only_when_called [OF run g h] b id unref
  have "\<forall>r\<in>set ?res. tool_call_id r \<noteq> Some ''b''"
    by blast
  with id have "ex_result_message ''b'' ''2'' \<notin> set ?res"
    by blast
  with run g h b show ?thesis
    by (intro conjI)
qed

section \<open>The order of events in the returned list\<close>

lemma concat_map_split2:
  assumes "i < j" and "j < length es"
  shows "\<exists>pre mid post. concat (map f es) = pre @ f (es ! i) @ mid @ f (es ! j) @ post"
proof -
  let ?ds = "drop (Suc i) es"
  let ?k = "j - Suc i"
  from assms have i: "i < length es" and k: "?k < length ?ds" by auto
  from assms have nth: "?ds ! ?k = es ! j" by simp
  have "es = take i es @ es ! i # ?ds"
    using i by (rule id_take_nth_drop)
  moreover have "?ds = take ?k ?ds @ ?ds ! ?k # drop (Suc ?k) ?ds"
    using k by (rule id_take_nth_drop)
  ultimately have "es = take i es @ es ! i # take ?k ?ds @ es ! j # drop (Suc ?k) ?ds"
    using nth by simp
  then have "concat (map f es) =
      concat (map f (take i es)) @ f (es ! i) @ concat (map f (take ?k ?ds)) @ f (es ! j)
        @ concat (map f (drop (Suc ?k) ?ds))"
    by (metis concat.simps(2) concat_append list.simps(9) map_append)
  then show ?thesis by blast
qed

lemma filter_concat_map: "filter P (concat (map f es)) = concat (map (\<lambda>e. filter P (f e)) es)"
  by (induction es) auto

lemma map_concat_map: "map g (concat (map f es)) = concat (map (\<lambda>e. map g (f e)) es)"
  by (induction es) auto

section \<open>The order of the event graph\<close>

lemma ranked_iff:
  "ranked te es rank =
     (\<forall>e\<in>set es. \<forall>i\<in>set (consumed_ids te e). i \<in> id_of ` set es \<longrightarrow> rank i < rank (id_of e))"
  by (simp add: ranked_def list_all_iff)

declare topo.simps [simp del]

lemma free_iff:
  "free te pending e = (\<forall>i\<in>set (consumed_ids te e). i \<notin> id_of ` set pending)"
  by (simp add: free_def list_all_iff)

lemma arg_min_list_le:
  fixes f :: "'a \<Rightarrow> 'b::linorder"
  assumes "x \<in> set xs"
  shows "f (arg_min_list f xs) \<le> f x"
proof -
  from assms have ne: "xs \<noteq> []" by auto
  have "Min (f ` set xs) \<le> f x" using assms by (intro Min_le) auto
  with f_arg_min_list_f [OF ne, of f] show ?thesis by simp
qed

lemma ranked_subset:
  "ranked te es rank \<Longrightarrow> set es' \<subseteq> set es \<Longrightarrow> ranked te es' rank"
  unfolding ranked_iff by blast

lemma ranked_not_stuck:
  assumes "ranked te pending rank" and "pending \<noteq> []"
  shows "filter (free te pending) pending \<noteq> []"
proof -
  let ?f = "\<lambda>e. rank (id_of e)"
  let ?e = "arg_min_list ?f pending"
  from assms(2) have e: "?e \<in> set pending" by (rule arg_min_list_in)
  have least: "?f ?e \<le> ?f x" if "x \<in> set pending" for x
    using that by (rule arg_min_list_le)
  have "free te pending ?e"
    unfolding free_iff
  proof
    fix i assume i: "i \<in> set (consumed_ids te ?e)"
    show "i \<notin> id_of ` set pending"
    proof
      assume "i \<in> id_of ` set pending"
      with assms(1) e i have lt: "rank i < rank (id_of ?e)"
        unfolding ranked_iff by blast
      from \<open>i \<in> id_of ` set pending\<close> obtain x where "x \<in> set pending" "i = id_of x" by auto
      with least [of x] lt show False by simp
    qed
  qed
  with e have "\<exists>x\<in>set pending. free te pending x" by blast
  then show ?thesis by (simp add: filter_empty_conv)
qed

lemma topo_cases:
  assumes "ranked te pending rank" and "pending \<noteq> []"
  obtains e where "e \<in> set pending" and "free te pending e"
    and "\<forall>x\<in>set pending. free te pending x \<longrightarrow> offset_of e \<le> offset_of x"
    and "topo te pending = e # topo te (remove1 e pending)"
proof -
  from ranked_not_stuck [OF assms] obtain r rs where
    rs: "filter (free te pending) pending = r # rs"
    by (cases "filter (free te pending) pending") auto
  let ?e = "arg_min_list offset_of (r # rs)"
  have "?e \<in> set (r # rs)" by (rule arg_min_list_in) simp
  with rs have in_f: "?e \<in> set (filter (free te pending) pending)" by simp
  then have a: "?e \<in> set pending" and b: "free te pending ?e" by simp_all
  have c: "offset_of ?e \<le> offset_of x" if "x \<in> set pending" "free te pending x" for x
  proof -
    from that have "x \<in> set (filter (free te pending) pending)" by simp
    then have "x \<in> set (r # rs)" unfolding rs .
    then show ?thesis by (rule arg_min_list_le)
  qed
  from rs have d: "topo te pending = ?e # topo te (remove1 ?e pending)"
    by (subst topo.simps) (simp add: Let_def)
  from c have "\<forall>x\<in>set pending. free te pending x \<longrightarrow> offset_of ?e \<le> offset_of x" by blast
  with a b show ?thesis using d by (rule that)
qed

lemma length_remove1_less: "e \<in> set xs \<Longrightarrow> length (remove1 e xs) < length xs"
  by (induction xs) auto

lemma topo_Nil [simp]: "topo te [] = []"
  by (subst topo.simps) simp

lemma insert_set_remove1: "e \<in> set xs \<Longrightarrow> insert e (set (remove1 e xs)) = set xs"
  by (induction xs) auto

lemma topo_set:
  "ranked te pending rank \<Longrightarrow>
     set (topo te pending) = set pending \<and> length (topo te pending) = length pending"
proof (induction pending rule: length_induct)
  case (1 pending)
  show ?case
  proof (cases "pending = []")
    case True
    then show ?thesis by simp
  next
    case False
    from 1(2) False obtain e where e: "e \<in> set pending"
      and step: "topo te pending = e # topo te (remove1 e pending)"
      by (rule topo_cases)
    let ?p = "remove1 e pending"
    from e have len: "length ?p < length pending"
      by (rule length_remove1_less)
    have "ranked te ?p rank"
      by (rule ranked_subset [OF 1(2)]) (rule set_remove1_subset)
    with 1(1) len have "set (topo te ?p) = set ?p \<and> length (topo te ?p) = length ?p"
      by blast
    with step e len show ?thesis
      by (simp add: insert_set_remove1 length_remove1)
  qed
qed

lemma topo_causal:
  "ranked te pending rank \<Longrightarrow> causal te (topo te pending)"
proof (induction pending rule: length_induct)
  case (1 pending)
  show ?case
  proof (cases "pending = []")
    case True
    then show ?thesis by (simp add: causal_def)
  next
    case False
    from 1(2) False obtain e where e: "e \<in> set pending" and fr: "free te pending e"
      and step: "topo te pending = e # topo te (remove1 e pending)"
      by (rule topo_cases)
    let ?p = "remove1 e pending"
    let ?o = "topo te ?p"
    from e have len: "length ?p < length pending"
      by (rule length_remove1_less)
    have rk: "ranked te ?p rank"
      by (rule ranked_subset [OF 1(2)]) (rule set_remove1_subset)
    with 1(1) len have ih: "causal te ?o" by blast
    from topo_set [OF 1(2)] have all: "set (topo te pending) = set pending" by simp
    show ?thesis
      unfolding causal_def
    proof (intro allI impI)
      fix j k
      assume j: "j < length (topo te pending)" and k: "k < length (topo te pending)"
        and c: "id_of (topo te pending ! k) \<in> set (consumed_ids te (topo te pending ! j))"
      show "k < j"
      proof (cases j)
        case 0
        from k all have "topo te pending ! k \<in> set pending" by (metis nth_mem)
        with c fr 0 step show ?thesis by (auto simp: free_iff)
      next
        case (Suc j')
        show ?thesis
        proof (cases k)
          case 0
          with Suc show ?thesis by simp
        next
          case (Suc k')
          from j k c \<open>j = Suc j'\<close> Suc step
          have "j' < length ?o" "k' < length ?o"
            "id_of (?o ! k') \<in> set (consumed_ids te (?o ! j'))"
            by simp_all
          with ih have "k' < j'" unfolding causal_def by blast
          with \<open>j = Suc j'\<close> Suc show ?thesis by simp
        qed
      qed
    qed
  qed
qed

lemma topo_least_offset_first:
  "ranked te pending rank \<Longrightarrow> least_offset_first te (topo te pending)"
proof (induction pending rule: length_induct)
  case (1 pending)
  show ?case
  proof (cases "pending = []")
    case True
    then show ?thesis by (simp add: least_offset_first_def)
  next
    case False
    from 1(2) False obtain e where e: "e \<in> set pending" and fr: "free te pending e"
      and least: "\<forall>x\<in>set pending. free te pending x \<longrightarrow> offset_of e \<le> offset_of x"
      and step: "topo te pending = e # topo te (remove1 e pending)"
      by (rule topo_cases)
    let ?p = "remove1 e pending"
    let ?o = "topo te ?p"
    from e have len: "length ?p < length pending"
      by (rule length_remove1_less)
    have rk: "ranked te ?p rank"
      by (rule ranked_subset [OF 1(2)]) (rule set_remove1_subset)
    with 1(1) len have ih: "least_offset_first te ?o" by blast
    from topo_set [OF 1(2)] have all: "set (topo te pending) = set pending" by simp
    show ?thesis
      unfolding least_offset_first_def
    proof (intro allI impI)
      fix j i
      assume j: "j < length (topo te pending)" and i: "i < j"
        and pl: "placeable te (topo te pending) i j"
      from i obtain j' where j': "j = Suc j'" by (cases j) auto
      show "offset_of (topo te pending ! i) \<le> offset_of (topo te pending ! j)"
      proof (cases i)
        case 0
        let ?x = "topo te pending ! j"
        from j all have x: "?x \<in> set pending" by (metis nth_mem)
        have "free te pending ?x"
          unfolding free_iff
        proof
          fix a assume a: "a \<in> set (consumed_ids te ?x)"
          show "a \<notin> id_of ` set pending"
          proof
            assume "a \<in> id_of ` set pending"
            with all obtain y where "y \<in> set (topo te pending)" "a = id_of y" by auto
            then obtain k where "k < length (topo te pending)" "topo te pending ! k = y"
              by (auto simp: in_set_conv_nth)
            with pl a \<open>a = id_of y\<close> 0 show False
              unfolding placeable_def by auto
          qed
        qed
        with least x 0 step show ?thesis by simp
      next
        case (Suc i')
        from j j' step have jl: "j' < length ?o" by simp
        from i j' Suc have il: "i' < j'" by simp
        have "placeable te ?o i' j'"
          unfolding placeable_def
        proof (intro allI impI)
          fix k assume "k < length ?o" "id_of (?o ! k) \<in> set (consumed_ids te (?o ! j'))"
          with pl step j' have "Suc k < i"
            unfolding placeable_def by (auto dest!: spec [of _ "Suc k"])
          with Suc show "k < i'" by simp
        qed
        with ih jl il have "offset_of (?o ! i') \<le> offset_of (?o ! j')"
          unfolding least_offset_first_def by blast
        with step j' Suc show ?thesis by simp
      qed
    qed
  qed
qed

lemma reach_distinct:
  "distinct (map id_of seen) \<Longrightarrow> distinct (map id_of (reach te seen fr))"
  by (induction te seen fr rule: reach.induct) auto

lemma reach_keeps:
  "set seen \<subseteq> set (reach te seen fr)
   \<and> id_of ` set fr \<subseteq> id_of ` set (reach te seen fr)"
proof (induction te seen fr rule: reach.induct)
  case (1 te seen)
  show ?case by simp
next
  case (2 te seen e fr)
  show ?case
  proof (cases "id_of e \<in> set (map id_of seen)")
    case True
    with 2(1) have ih: "set seen \<subseteq> set (reach te seen fr)"
      "id_of ` set fr \<subseteq> id_of ` set (reach te seen fr)"
      by simp_all
    from True ih(1) have "id_of e \<in> id_of ` set (reach te seen fr)" by auto
    with ih True show ?thesis by simp
  next
    case False
    let ?r = "reach te (seen @ [e]) (fr @ events_consumed te e)"
    from False 2(2) have ih: "set (seen @ [e]) \<subseteq> set ?r"
      "id_of ` set (fr @ events_consumed te e) \<subseteq> id_of ` set ?r"
      by simp_all
    from ih(1) have "id_of e \<in> id_of ` set ?r" by auto
    with ih False show ?thesis by auto
  qed
qed

lemma reach_closed:
  assumes "\<forall>e\<in>set seen. id_of ` set (events_consumed te e) \<subseteq> id_of ` (set seen \<union> set fr)"
  shows "\<forall>e\<in>set (reach te seen fr).
           id_of ` set (events_consumed te e) \<subseteq> id_of ` set (reach te seen fr)"
  using assms
proof (induction te seen fr rule: reach.induct)
  case (1 te seen)
  then show ?case by simp
next
  case (2 te seen e fr)
  show ?case
  proof (cases "id_of e \<in> set (map id_of seen)")
    case True
    have "\<forall>x\<in>set seen. id_of ` set (events_consumed te x) \<subseteq> id_of ` (set seen \<union> set fr)"
    proof
      fix x assume "x \<in> set seen"
      with "2.prems" have "id_of ` set (events_consumed te x) \<subseteq> id_of ` (set seen \<union> set (e # fr))"
        by blast
      with True show "id_of ` set (events_consumed te x) \<subseteq> id_of ` (set seen \<union> set fr)"
        by auto
    qed
    from "2.IH"(1) [OF True this] True show ?thesis by simp
  next
    case False
    let ?seen = "seen @ [e]" and ?fr = "fr @ events_consumed te e"
    have "\<forall>x\<in>set ?seen. id_of ` set (events_consumed te x) \<subseteq> id_of ` (set ?seen \<union> set ?fr)"
    proof
      fix x assume x: "x \<in> set ?seen"
      show "id_of ` set (events_consumed te x) \<subseteq> id_of ` (set ?seen \<union> set ?fr)"
      proof (cases "x = e")
        case True
        then show ?thesis by auto
      next
        case False
        with x have "x \<in> set seen" by simp
        with "2.prems" have "id_of ` set (events_consumed te x) \<subseteq> id_of ` (set seen \<union> set (e # fr))"
          by blast
        then show ?thesis by auto
      qed
    qed
    from "2.IH"(2) [OF False this] False show ?thesis by simp
  qed
qed

lemma topo_distinct:
  assumes "ranked te pending rank" and "distinct (map id_of pending)"
  shows "distinct (map id_of (topo te pending))"
proof -
  from topo_set [OF assms(1)] have s: "set (topo te pending) = set pending"
    and l: "length (topo te pending) = length pending"
    by simp_all
  from assms(2) have d: "distinct pending" and inj: "inj_on id_of (set pending)"
    by (simp_all add: distinct_map)
  from d have "card (set pending) = length pending" by (rule distinct_card)
  with s l have "card (set (topo te pending)) = length (topo te pending)" by simp
  then have "distinct (topo te pending)" by (rule card_distinct)
  with inj s show ?thesis by (simp add: distinct_map)
qed

lemma same_id_same_index:
  assumes "distinct (map f xs)" and "m < length xs" and "j < length xs"
    and "f (xs ! m) = f (xs ! j)"
  shows "m = j"
  using nth_eq_iff_index_eq [of "map f xs" m j] assms by simp

lemma links_order:
  assumes c: "causal te es" and d: "distinct (map id_of es)"
    and t: "(x, y) \<in> (links te es)\<^sup>+"
  shows "\<forall>i j. i < length es \<and> j < length es \<and> id_of (es ! i) = x \<and> id_of (es ! j) = y
           \<longrightarrow> i < j"
  using t
proof (induction rule: trancl_induct)
  case (base y)
  show ?case
  proof (intro allI impI)
    fix i j
    assume a: "i < length es \<and> j < length es \<and> id_of (es ! i) = x \<and> id_of (es ! j) = y"
    from base obtain u v where uv: "x = id_of u" "y = id_of v" "v \<in> set es"
      "id_of u \<in> set (consumed_ids te v)"
      by (auto simp: links_def)
    from uv(3) obtain m where m: "m < length es" "es ! m = v" by (auto simp: in_set_conv_nth)
    with a uv(2) have "id_of (es ! m) = id_of (es ! j)" by simp
    with d m(1) a have "m = j" by (intro same_id_same_index [of id_of es]) simp_all
    with m uv a have "id_of (es ! i) \<in> set (consumed_ids te (es ! j))" by simp
    with c a show "i < j" unfolding causal_def by blast
  qed
next
  case (step y z)
  show ?case
  proof (intro allI impI)
    fix i j
    assume a: "i < length es \<and> j < length es \<and> id_of (es ! i) = x \<and> id_of (es ! j) = z"
    from step(2) obtain u v where uv: "y = id_of u" "z = id_of v" "u \<in> set es" "v \<in> set es"
      "id_of u \<in> set (consumed_ids te v)"
      by (auto simp: links_def)
    from uv(3) obtain k where k: "k < length es" "es ! k = u" by (auto simp: in_set_conv_nth)
    from uv(4) obtain m where m: "m < length es" "es ! m = v" by (auto simp: in_set_conv_nth)
    with a uv(2) have "id_of (es ! m) = id_of (es ! j)" by simp
    with d m(1) a have "m = j" by (intro same_id_same_index [of id_of es]) simp_all
    with m uv k have "id_of (es ! k) \<in> set (consumed_ids te (es ! j))" by simp
    with c a k have kj: "k < j" unfolding causal_def by blast
    from step(3) a k uv(1) have "i < k" by blast
    with kj show "i < j" by simp
  qed
qed

lemma links_intro:
  "a \<in> set es \<Longrightarrow> b \<in> set es \<Longrightarrow> id_of a \<in> set (consumed_ids te b) \<Longrightarrow>
     (id_of a, id_of b) \<in> links te es"
  unfolding links_def by blast

lemma event_graph_spec:
  assumes "ranked te (graph_events node_input te) rank"
  shows "causal te (event_graph node_input te)"
    and "least_offset_first te (event_graph node_input te)"
    and "distinct (map id_of (event_graph node_input te))"
    and "set (event_graph node_input te) = set (graph_events node_input te)"
proof -
  let ?p = "reach te [] (map Consume node_input)"
  from assms have r: "ranked te ?p rank" by (simp add: graph_events_def)
  have d: "distinct (map id_of ?p)" by (rule reach_distinct) simp
  from topo_causal [OF r] show "causal te (event_graph node_input te)"
    by (simp add: event_graph_def)
  from topo_least_offset_first [OF r] show "least_offset_first te (event_graph node_input te)"
    by (simp add: event_graph_def)
  from topo_distinct [OF r d] show "distinct (map id_of (event_graph node_input te))"
    by (simp add: event_graph_def)
  from topo_set [OF r] show "set (event_graph node_input te) = set (graph_events node_input te)"
    by (simp add: event_graph_def graph_events_def)
qed

lemma graph_events_spec:
  "id_of ` set (map Consume node_input) \<subseteq> id_of ` set (graph_events node_input te)"
  "\<forall>e\<in>set (graph_events node_input te).
     id_of ` set (events_consumed te e) \<subseteq> id_of ` set (graph_events node_input te)"
  using reach_keeps [of "[]" te "map Consume node_input"]
    reach_closed [of "[]" te "map Consume node_input"]
  unfolding graph_events_def by simp_all

lemma in_trancl_single: "(x, y) \<in> {(a, b)}\<^sup>+ \<Longrightarrow> x = a \<and> y = b"
  by (induction rule: trancl.induct) auto

text \<open>
  No order of the three events of \<open>ex_tie_store\<close> is causal and has every pair of
  unlinked events in the order of their offsets, whatever produces it: \<open>a\<close> (offset 5) is
  consumed by \<open>c\<close> (offset 0), and \<open>b\<close> (offset 3) is linked to neither.
\<close>

lemma tie_example_has_no_order:
  assumes s: "set es = set (event_graph ex_tie_input (topic_events_of ex_tie_store))"
    and c: "causal (topic_events_of ex_tie_store) es"
    and o: "offset_ordered (topic_events_of ex_tie_store) es"
  shows False
proof -
  let ?te = "topic_events_of ex_tie_store"
  let ?A = "Consume (ex_consume ''a'' ''T'' 5 (One ex_message))"
  let ?B = "Consume (ex_consume ''b'' ''V'' 3 (One ex_message))"
  let ?C = "Consume (ex_consume ''c'' ''U'' 0 (One ex_message))"
  have g: "event_graph ex_tie_input ?te = [?B, ?A, ?C]" by code_simp
  have ids: "id_of ?A = ''a''" "id_of ?B = ''b''" "id_of ?C = ''c''" by code_simp+
  have offs: "offset_of ?A = 5" "offset_of ?B = 3" "offset_of ?C = 0" by code_simp+
  have cons: "consumed_ids ?te ?A = []" "consumed_ids ?te ?B = []" "consumed_ids ?te ?C = [''a'']"
    by code_simp+
  from s g have set: "set es = {?A, ?B, ?C}" by auto
  have sub: "links ?te es \<subseteq> {(''a'', ''c'')}"
    unfolding links_def set using ids cons by auto
  have tr: "p = (''a'', ''c'')" if "p \<in> (links ?te es)\<^sup>+" for p
  proof -
    from trancl_mono_subset [OF sub] that have "p \<in> {(''a'', ''c'')}\<^sup>+" by (rule subsetD)
    then show ?thesis by (cases p) (simp, drule in_trancl_single, simp)
  qed
  have no: "(''c'', ''b'') \<notin> (links ?te es)\<^sup>+" "(''b'', ''c'') \<notin> (links ?te es)\<^sup>+"
    "(''b'', ''a'') \<notin> (links ?te es)\<^sup>+" "(''a'', ''b'') \<notin> (links ?te es)\<^sup>+"
    using tr by fastforce+
  from set have "?A \<in> set es" "?B \<in> set es" "?C \<in> set es" by simp_all
  then obtain ia ib ic where
    ia: "ia < length es" "es ! ia = ?A" and ib: "ib < length es" "es ! ib = ?B"
    and ic: "ic < length es" "es ! ic = ?C"
    unfolding in_set_conv_nth by blast
  from ia(2) ic(2) ids cons have "id_of (es ! ia) \<in> set (consumed_ids ?te (es ! ic))" by simp
  with c ia(1) ic(1) have 1: "ia < ic" unfolding causal_def by blast
  have 2: "ic < ib"
  proof (rule o [unfolded offset_ordered_def, rule_format, OF ic(1) ib(1)])
    show "(id_of (es ! ic), id_of (es ! ib)) \<notin> (links ?te es)\<^sup>+
        \<and> (id_of (es ! ib), id_of (es ! ic)) \<notin> (links ?te es)\<^sup>+
        \<and> offset_of (es ! ic) < offset_of (es ! ib)"
      using no ids offs by (simp add: ic(2) ib(2))
  qed
  have 3: "ib < ia"
  proof (rule o [unfolded offset_ordered_def, rule_format, OF ib(1) ia(1)])
    show "(id_of (es ! ib), id_of (es ! ia)) \<notin> (links ?te es)\<^sup>+
        \<and> (id_of (es ! ia), id_of (es ! ib)) \<notin> (links ?te es)\<^sup>+
        \<and> offset_of (es ! ib) < offset_of (es ! ia)"
      using no ids offs by (simp add: ia(2) ib(2))
  qed
  from 1 2 3 show False by simp
qed

text \<open>
  C1, amended. Let \<^verbatim>\<open>get_command_input\<close> return, with the event graph as the
  specification describes it, and let the consumption links among the events of the graph
  have no cycle (a rank that every link raises). Let \<open>es\<close> be the events the graph hands
  back, and let the event at position \<open>j\<close> have consumed the event at position \<open>i\<close>,
  directly or through other events of the graph. Then \<open>i < j\<close>: the consumed event stands
  first. In the flattened list all its messages stand before all messages of the consuming
  event, and in the list handed to the command (read up to the field \<^verbatim>\<open>tools\<close>) this
  still holds for their messages without a \<^verbatim>\<open>tool_call_id\<close>; the others are placed by the
  tool-call pairing (C2, C9). Of two events the later of which could have been placed where
  the earlier stands (what it consumed stands before that place), the earlier has the
  smaller or the same publish offset. And the graph holds the events the node consumed and,
  with each of its events, the known events that event consumed.
\<close>

theorem untagged_messages_in_causal_order:
  assumes "get_command_input sur specs store ctx node_input = Inr (res, log)"
      and "topology_sorted_events sur = event_graph"
      and "get_agent_events store (assistant_request_id ctx) = Inr agent_events"
      and "te = topic_events_of agent_events"
      and "es = event_graph node_input te"
      and "ranked te (graph_events node_input te) rank"
      and "i < length es" and "j < length es"
      and "(id_of (es ! i), id_of (es ! j)) \<in> (links te es)\<^sup>+"
  shows "i < j
     \<and> (\<exists>flat pre mid post. flatten_messages es = Inr flat
            \<and> flat = pre @ messages_of (es ! i) @ mid @ messages_of (es ! j) @ post)
     \<and> (\<exists>pre mid post. map without_tools (filter untagged res) =
            pre @ map without_tools (filter untagged (messages_of (es ! i))) @ mid
              @ map without_tools (filter untagged (messages_of (es ! j))) @ post)
     \<and> least_offset_first te es
     \<and> id_of ` set (map Consume node_input) \<subseteq> id_of ` set es
     \<and> (\<forall>e\<in>set es. id_of ` set (events_consumed te e) \<subseteq> id_of ` set es)"
proof -
  note g = event_graph_spec [OF assms(6)]
  from links_order [OF g(1) g(3)] assms(5,7,8,9) have lt: "i < j" by blast
  from assms(1) obtain evs flat where
    "get_agent_events store (assistant_request_id ctx) = Inr evs"
    and "flatten_messages (topology_sorted_events sur node_input (topic_events_of evs)) = Inr flat"
    by (rule get_command_input_Inr)
  with assms(2,3,4,5) have flat: "flatten_messages es = Inr flat"
    by simp
  then have eq: "flat = concat (map messages_of es)"
    by (rule flatten_messages_eq)
  from concat_map_split2 [OF lt assms(8), of messages_of] flat eq
  have first: "\<exists>flat pre mid post. flatten_messages es = Inr flat
            \<and> flat = pre @ messages_of (es ! i) @ mid @ messages_of (es ! j) @ post"
    by auto
  from flat assms(2,4,5) have "flatten_messages (topology_sorted_events sur node_input
             (topic_events_of agent_events)) = Inr flat"
    by simp
  from untagged_kept [OF assms(1,3) this]
  have "map without_tools (filter untagged res) =
          concat (map (\<lambda>e. map without_tools (filter untagged (messages_of e))) es)"
    by (simp add: eq filter_concat_map map_concat_map)
  with concat_map_split2 [OF lt assms(8),
         of "\<lambda>e. map without_tools (filter untagged (messages_of e))"]
  have second: "\<exists>pre mid post. map without_tools (filter untagged res) =
            pre @ map without_tools (filter untagged (messages_of (es ! i))) @ mid
              @ map without_tools (filter untagged (messages_of (es ! j))) @ post"
    by simp
  from g(2) assms(5) have third: "least_offset_first te es" by simp
  from graph_events_spec [of node_input te] g(4) assms(5)
  have fourth: "id_of ` set (map Consume node_input) \<subseteq> id_of ` set es"
    and fifth: "\<forall>e\<in>set es. id_of ` set (events_consumed te e) \<subseteq> id_of ` set es"
    by simp_all
  from lt first second third fourth fifth show ?thesis by blast
qed

text \<open>
  C1, as stated, fails, in both halves. First: the consume event \<open>c1\<close> carries a tool
  result for call \<open>x\<close>; the publish event \<open>p2\<close> that \<open>c2\<close> reads lists \<open>c1\<close> among its
  \<^verbatim>\<open>consumed_event_ids\<close> and carries an assistant message that calls \<open>x\<close>. The event
  graph puts \<open>c1\<close> first, and in the list handed to the command the message of \<open>c2\<close>
  stands first and the message of \<open>c1\<close> behind it. Second: event \<open>c\<close> (offset 0) has
  consumed \<open>a\<close> (offset 5), and \<open>b\<close> (offset 3) has no link to either. The graph hands
  back \<open>b\<close>, \<open>a\<close>, \<open>c\<close>, so \<open>b\<close> stands before \<open>c\<close>, which has the smaller offset; no
  order of the three puts \<open>a\<close> before \<open>c\<close>, \<open>c\<close> before \<open>b\<close> and \<open>b\<close> before \<open>a\<close>.
\<close>

theorem tool_result_moved_behind_its_consumer:
  "event_graph ex_causal_input (topic_events_of ex_causal_store) =
     [Consume (ex_consume ''c1'' ''T'' 0 (One (ex_result_message ''x'' ''42''))),
      Consume (ex_consume ''c2'' ''U'' 0 (One (ex_call_message [''x''])))]
   \<and> consumed_ids (topic_events_of ex_causal_store)
        (Consume (ex_consume ''c2'' ''U'' 0 (One (ex_call_message [''x''])))) = [''c1'']
   \<and> event_messages (Consume (ex_consume ''c1'' ''T'' 0 (One (ex_result_message ''x'' ''42''))))
        = Inr [ex_result_message ''x'' ''42'']
   \<and> event_messages (Consume (ex_consume ''c2'' ''U'' 0 (One (ex_call_message [''x'']))))
        = Inr [ex_call_message [''x'']]
   \<and> get_command_input graph_sur [] ex_causal_store ex_context ex_causal_input =
        Inr ([ex_call_message [''x''], ex_result_message ''x'' ''42''], [])
   \<and> map id_of (event_graph ex_tie_input (topic_events_of ex_tie_store)) = [''b'', ''a'', ''c'']
   \<and> map offset_of (event_graph ex_tie_input (topic_events_of ex_tie_store)) = [3, 5, 0]
   \<and> map (consumed_ids (topic_events_of ex_tie_store))
        (event_graph ex_tie_input (topic_events_of ex_tie_store)) = [[], [], [''a'']]"
  by code_simp

text \<open>
  The amended C1 at a chain of three events: \<open>c2\<close> has consumed \<open>c1\<close>, which has consumed
  \<open>c0\<close>, and the node is handed \<open>c2\<close> alone. The first and the last event of the order
  are linked through \<open>c1\<close>.
\<close>

theorem untagged_messages_in_causal_order_witness:
  "get_command_input graph_sur [] ex_chain_store ex_context ex_chain_input =
        Inr ([ex_said ''user'' ''1'', ex_said ''assistant'' ''2'', ex_said ''user'' ''3''], [])
   \<and> map id_of (event_graph ex_chain_input (topic_events_of ex_chain_store))
        = [''c0'', ''c1'', ''c2'']
   \<and> ranked (topic_events_of ex_chain_store)
        (graph_events ex_chain_input (topic_events_of ex_chain_store)) ex_chain_rank
   \<and> (''c0'', ''c2'') \<in> (links (topic_events_of ex_chain_store)
                            (event_graph ex_chain_input (topic_events_of ex_chain_store)))\<^sup>+
   \<and> (0::nat) < 2
   \<and> (\<exists>pre mid post.
         map without_tools (filter untagged
             [ex_said ''user'' ''1'', ex_said ''assistant'' ''2'', ex_said ''user'' ''3'']) =
           pre @ [without_tools (ex_said ''user'' ''1'')] @ mid
             @ [without_tools (ex_said ''user'' ''3'')] @ post)"
proof -
  let ?te = "topic_events_of ex_chain_store"
  let ?es = "event_graph ex_chain_input ?te"
  let ?c0 = "Consume (ex_consume ''c0'' ''T'' 0 (One (ex_said ''user'' ''1'')))"
  let ?c1 = "Consume (ex_consume ''c1'' ''U'' 0 (One (ex_said ''assistant'' ''2'')))"
  let ?c2 = "Consume (ex_consume ''c2'' ''V'' 0 (One (ex_said ''user'' ''3'')))"
  have run: "get_command_input graph_sur [] ex_chain_store ex_context ex_chain_input =
        Inr ([ex_said ''user'' ''1'', ex_said ''assistant'' ''2'', ex_said ''user'' ''3''], [])"
    by code_simp
  have sur: "topology_sorted_events graph_sur = event_graph"
    by (simp add: graph_sur_def)
  have g: "get_agent_events ex_chain_store (assistant_request_id ex_context) = Inr ex_chain_store"
    by code_simp
  have rk: "ranked ?te (graph_events ex_chain_input ?te) ex_chain_rank"
    by code_simp
  have ids: "map id_of ?es = [''c0'', ''c1'', ''c2'']" by code_simp
  have len: "0 < length ?es" "2 < length ?es" by code_simp+
  have mem: "?c0 \<in> set ?es" "?c1 \<in> set ?es" "?c2 \<in> set ?es" by code_simp+
  have cons: "id_of ?c0 \<in> set (consumed_ids ?te ?c1)" "id_of ?c1 \<in> set (consumed_ids ?te ?c2)"
    by code_simp+
  have nm: "id_of ?c0 = ''c0''" "id_of ?c1 = ''c1''" "id_of ?c2 = ''c2''" by code_simp+
  from links_intro [OF mem(1,2) cons(1)] links_intro [OF mem(2,3) cons(2)]
  have "(''c0'', ''c1'') \<in> links ?te ?es" "(''c1'', ''c2'') \<in> links ?te ?es"
    unfolding nm by simp_all
  then have tr: "(''c0'', ''c2'') \<in> (links ?te ?es)\<^sup>+" by (rule trancl_into_trancl [OF r_into_trancl])
  have at: "id_of (?es ! 0) = ''c0''" "id_of (?es ! 2) = ''c2''" by code_simp+
  have a: "map without_tools (filter untagged (messages_of (?es ! 0))) =
             [without_tools (ex_said ''user'' ''1'')]"
    by code_simp
  have b: "map without_tools (filter untagged (messages_of (?es ! 2))) =
             [without_tools (ex_said ''user'' ''3'')]"
    by code_simp
  from untagged_messages_in_causal_order [OF run sur g refl refl rk len, unfolded at, OF tr]
  have "\<exists>pre mid post.
         map without_tools (filter untagged
             [ex_said ''user'' ''1'', ex_said ''assistant'' ''2'', ex_said ''user'' ''3'']) =
           pre @ [without_tools (ex_said ''user'' ''1'')] @ mid
             @ [without_tools (ex_said ''user'' ''3'')] @ post"
    unfolding a b by blast
  with run ids rk tr show ?thesis by simp
qed


section \<open>Serialisation round trips\<close>

lemma context_roundtrip: "context_validate (context_dump c) = Inr c"
  by (simp add: context_validate_def context_dump_def item_def as_str_def and_then_def)

lemma all_or_first_error_Inr: "all_or_first_error (map Inr xs) = Inr xs"
  by (induction xs) (simp_all add: and_then_def)

lemma as_str_list_roundtrip: "as_str_list (JArr (map JStr xs)) = Inr xs"
proof -
  have "map as_str (map JStr xs) = map Inr xs"
    by (simp add: as_str_def)
  then show ?thesis
    by (simp add: as_str_list_def all_or_first_error_Inr del: map_map)
qed

lemma validate_message_list_roundtrip: "validate_message_list (JArr (map JMsg ms)) = Inr ms"
proof -
  have "map validate_message (map JMsg ms) = map Inr ms"
    by (simp add: validate_message_def)
  then show ?thesis
    by (simp add: validate_message_list_def all_or_first_error_Inr del: map_map)
qed

lemma publish_roundtrip:
  assumes "data e = One m \<or> data e = Many ms"
  shows "and_then (PublishToTopicEvent_to_dict e) PublishToTopicEvent_from_dict = Inr e"
  using assms
  by (auto simp: PublishToTopicEvent_to_dict_def PublishToTopicEvent_from_dict_def
      json_dumps_def json_loads_def dict_display_def event_dict_def event_base_def
      EVENT_CONTEXT_def item_def as_str_def as_int_def and_then_def context_roundtrip
      as_str_list_roundtrip validate_message_list_roundtrip validate_message_def)

lemma consume_roundtrip:
  assumes "data e = One m \<or> data e = Many ms"
  shows "and_then (ConsumeFromTopicEvent_to_dict e) ConsumeFromTopicEvent_from_dict = Inr e"
  using assms
  by (auto simp: ConsumeFromTopicEvent_to_dict_def ConsumeFromTopicEvent_from_dict_def
      json_dumps_def json_loads_def dict_display_def event_dict_def event_base_def
      EVENT_CONTEXT_def item_def as_str_def as_int_def and_then_def context_roundtrip
      validate_message_list_roundtrip validate_message_def)

lemma plain_data_cases: "plain_data d \<Longrightarrow> (\<exists>m. d = One m) \<or> (\<exists>ms. d = Many ms)"
  by (cases d) (auto simp: plain_data_def)

lemma consume_to_dict_Inr:
  assumes "plain_data (data e)"
  obtains j where "ConsumeFromTopicEvent_to_dict e = Inr j"
    and "ConsumeFromTopicEvent_from_dict j = Inr e"
proof -
  from assms obtain m ms where "data e = One m \<or> data e = Many ms"
    by (auto dest: plain_data_cases)
  from consume_roundtrip [OF this] that show ?thesis
    by (auto simp: and_then_def split: sum.splits)
qed

lemma consume_list_roundtrip:
  assumes "\<forall>c\<in>set cs. plain_data (data c)"
  shows "\<exists>js. all_or_first_error (map ConsumeFromTopicEvent_to_dict cs) = Inr js
          \<and> all_or_first_error (map ConsumeFromTopicEvent_from_dict js) = Inr cs"
  using assms
proof (induction cs)
  case Nil
  then show ?case by simp
next
  case (Cons c cs)
  then obtain js where js: "all_or_first_error (map ConsumeFromTopicEvent_to_dict cs) = Inr js"
    "all_or_first_error (map ConsumeFromTopicEvent_from_dict js) = Inr cs"
    by auto
  from Cons.prems obtain j where j: "ConsumeFromTopicEvent_to_dict c = Inr j"
    "ConsumeFromTopicEvent_from_dict j = Inr c"
    by (auto elim: consume_to_dict_Inr)
  from js j show ?case
    by (simp add: and_then_def)
qed

lemma node_event_base_roundtrip:
  "node_event_base (dict_display (node_event_dict e @ [(''data'', x)])) = Inr (NodeEvent.truncate e)"
  by (simp add: node_event_base_def node_event_dict_def event_dict_def event_base_def
      dict_display_def EVENT_CONTEXT_def item_def as_str_def and_then_def context_roundtrip
      NodeEvent.truncate_def)

lemma node_respond_data_items:
  "item (dict_display (node_event_dict e @ [(''data'', x)])) ''data'' = Inr x"
  by (simp add: node_event_dict_def event_dict_def dict_display_def EVENT_CONTEXT_def item_def)

lemma item_JObj:
  "item (JObj kvs) k = (case map_of kvs k of None \<Rightarrow> Inl (KeyError k) | Some v \<Rightarrow> Inr v)"
  by (simp add: item_def)

lemma node_respond_single_message_fails:
  assumes "output_data e = One m" and "\<forall>c\<in>set (input_data e). plain_data (data c)"
  shows "and_then (NodeRespondEvent_to_dict e) NodeRespondEvent_from_dict = Inl ValidationError"
proof -
  from consume_list_roundtrip [OF assms(2)] obtain js where
    js: "all_or_first_error (map ConsumeFromTopicEvent_to_dict (input_data e)) = Inr js"
        "all_or_first_error (map ConsumeFromTopicEvent_from_dict js) = Inr (input_data e)"
    by blast
  show ?thesis
    using js assms(1)
    by (simp add: NodeRespondEvent_to_dict_def NodeRespondEvent_from_dict_def and_then_def
        json_dumps_def json_loads_def node_event_base_roundtrip node_respond_data_items
        item_JObj validate_message_list_def)
qed

lemma node_respond_list_roundtrip:
  assumes "output_data e = Many ms" and "\<forall>c\<in>set (input_data e). plain_data (data c)"
  shows "and_then (NodeRespondEvent_to_dict e) NodeRespondEvent_from_dict = Inr e"
proof -
  from consume_list_roundtrip [OF assms(2)] obtain js where
    js: "all_or_first_error (map ConsumeFromTopicEvent_to_dict (input_data e)) = Inr js"
        "all_or_first_error (map ConsumeFromTopicEvent_from_dict js) = Inr (input_data e)"
    by blast
  show ?thesis
    using js assms(1)
    by (simp add: NodeRespondEvent_to_dict_def NodeRespondEvent_from_dict_def and_then_def
        json_dumps_def json_loads_def node_event_base_roundtrip node_respond_data_items
        item_JObj validate_message_list_roundtrip NodeEvent.extend_def NodeEvent.truncate_def
        NodeRespondEvent.fields_def)
qed

text \<open>
  C8 fails for a \<^verbatim>\<open>NodeRespondEvent\<close> whose output is a single message, which the type
  of the field allows. \<^verbatim>\<open>to_dict\<close> writes the message as a JSON object;
  \<^verbatim>\<open>from_dict\<close> validates what it reads as a list of messages and raises. With the same
  message in a one-element list the event comes back, and the publish event, whose
  \<^verbatim>\<open>from_dict\<close> tests \<^verbatim>\<open>isinstance(data_dict, list)\<close>, comes back with a single message
  too.
\<close>

theorem node_respond_single_message_not_restored:
  "and_then (NodeRespondEvent_to_dict (ex_node_respond (One ex_message)))
     NodeRespondEvent_from_dict = Inl ValidationError
   \<and> and_then (NodeRespondEvent_to_dict (ex_node_respond (Many [ex_message])))
     NodeRespondEvent_from_dict = Inr (ex_node_respond (Many [ex_message]))
   \<and> and_then (PublishToTopicEvent_to_dict (ex_publish ''p1'' ''T'' 0 [] (One ex_message)))
     PublishToTopicEvent_from_dict = Inr (ex_publish ''p1'' ''T'' 0 [] (One ex_message))"
  by code_simp

section \<open>The builder\<close>

lemma update_new_key: "k \<notin> set (map fst al) \<Longrightarrow> AList.update k v al = al @ [(k, v)]"
  by (induction al) auto

lemma register_keys:
  "register b ns = Inr b' \<Longrightarrow>
     map fst (nodes b') = map fst (nodes b) @ map Node.name ns
     \<and> (distinct (map fst (nodes b)) \<longrightarrow> distinct (map fst (nodes b')))
     \<and> topics b' = topics b \<and> topic_nodes b' = topic_nodes b"
proof (induction ns arbitrary: b)
  case Nil
  then show ?case by simp
next
  case (Cons n ns)
  from Cons.prems obtain b1 where b1: "node b n = Inr b1" and rest: "register b1 ns = Inr b'"
    by (auto simp: and_then_def split: sum.splits)
  from b1 have new: "Node.name n \<notin> set (map fst (nodes b))"
    and b1_eq: "b1 = b\<lparr>nodes := AList.update (Node.name n) n (nodes b)\<rparr>"
    by (auto simp: node_def has_key_def split: if_splits)
  from new b1_eq have keys1: "map fst (nodes b1) = map fst (nodes b) @ [Node.name n]"
    by (simp add: update_new_key)
  from keys1 new have d1: "distinct (map fst (nodes b)) \<Longrightarrow> distinct (map fst (nodes b1))"
    by simp
  from Cons.IH [OF rest] have
    keys': "map fst (nodes b') = map fst (nodes b1) @ map Node.name ns"
    and d': "distinct (map fst (nodes b1)) \<longrightarrow> distinct (map fst (nodes b'))"
    and same: "topics b' = topics b1" "topic_nodes b' = topic_nodes b1"
    by blast+
  from keys' keys1 have "map fst (nodes b') = map fst (nodes b) @ map Node.name (n # ns)"
    by simp
  moreover from d1 d' have "distinct (map fst (nodes b)) \<longrightarrow> distinct (map fst (nodes b'))"
    by blast
  moreover from same b1_eq have "topics b' = topics b" "topic_nodes b' = topic_nodes b"
    by simp_all
  ultimately show ?case by blast
qed

lemma register_duplicate:
  "\<not> distinct (map fst (nodes b) @ map Node.name ns) \<Longrightarrow> distinct (map fst (nodes b)) \<Longrightarrow>
     \<exists>nm. register b ns = Inl (DuplicateNodeError nm)"
proof (induction ns arbitrary: b)
  case Nil
  then show ?case by simp
next
  case (Cons n ns)
  show ?case
  proof (cases "has_key (nodes b) (Node.name n)")
    case True
    then show ?thesis by (auto simp: node_def and_then_def)
  next
    case False
    let ?b1 = "b\<lparr>nodes := AList.update (Node.name n) n (nodes b)\<rparr>"
    from False have keys1: "map fst (nodes ?b1) = map fst (nodes b) @ [Node.name n]"
      by (simp add: update_new_key has_key_def)
    with Cons.prems False have "\<not> distinct (map fst (nodes ?b1) @ map Node.name ns)"
      and "distinct (map fst (nodes ?b1))"
      by (auto simp: has_key_def)
    from Cons.IH [OF this] False show ?thesis
      by (simp add: node_def and_then_def)
  qed
qed

lemma register_distinct:
  "distinct (map fst (nodes b) @ map Node.name ns) \<Longrightarrow> \<exists>b'. register b ns = Inr b'"
proof (induction ns arbitrary: b)
  case Nil
  then show ?case by simp
next
  case (Cons n ns)
  let ?b1 = "b\<lparr>nodes := AList.update (Node.name n) n (nodes b)\<rparr>"
  from Cons.prems have new: "\<not> has_key (nodes b) (Node.name n)"
    by (auto simp: has_key_def)
  then have "map fst (nodes ?b1) = map fst (nodes b) @ [Node.name n]"
    by (simp add: update_new_key has_key_def)
  with Cons.prems have "distinct (map fst (nodes ?b1) @ map Node.name ns)"
    by simp
  from Cons.IH [OF this] new show ?case
    by (simp add: node_def and_then_def)
qed

lemma add_topic_keys:
  "fst ` set (topics (add_topic t b)) = insert (Topic.name t) (fst ` set (topics b))"
  "nodes (add_topic t b) = nodes b"
  by (auto simp: add_topic_def has_key_def dom_update)

lemma subscribe_keys:
  "fst ` set (topics (subscribe nn t b)) = insert (Topic.name t) (fst ` set (topics b))"
  "nodes (subscribe nn t b) = nodes b"
  by (simp_all add: subscribe_def Let_def add_topic_keys)

lemma foldl_subscribe_keys:
  "fst ` set (topics (foldl (\<lambda>w t. subscribe nn t w) b ts)) =
     fst ` set (topics b) \<union> Topic.name ` set ts
   \<and> nodes (foldl (\<lambda>w t. subscribe nn t w) b ts) = nodes b"
  by (induction ts arbitrary: b) (auto simp: subscribe_keys)

lemma foldl_add_topic_keys:
  "fst ` set (topics (foldl (\<lambda>w t. add_topic t w) b ts)) =
     fst ` set (topics b) \<union> Topic.name ` set ts
   \<and> nodes (foldl (\<lambda>w t. add_topic t w) b ts) = nodes b"
  by (induction ts arbitrary: b) (auto simp: add_topic_keys)

lemma gather_topics_keys:
  "fst ` set (topics (gather_topics b entry)) =
     fst ` set (topics b) \<union> set (referenced_topics [snd entry])
   \<and> nodes (gather_topics b entry) = nodes b"
  by (auto simp: gather_topics_def Let_def foldl_add_topic_keys foldl_subscribe_keys
      referenced_topics_def)

lemma referenced_topics_Cons:
  "set (referenced_topics (n # ns)) = set (referenced_topics [n]) \<union> set (referenced_topics ns)"
  by (auto simp: referenced_topics_def)

lemma foldl_gather_topics_keys:
  "fst ` set (topics (foldl gather_topics b entries)) =
     fst ` set (topics b) \<union> set (referenced_topics (map snd entries))
   \<and> nodes (foldl gather_topics b entries) = nodes b"
proof (induction entries arbitrary: b)
  case Nil
  then show ?case by (simp add: referenced_topics_def)
next
  case (Cons entry entries)
  show ?case
    using Cons.IH [of "gather_topics b entry"] gather_topics_keys [of b entry]
      referenced_topics_Cons [of "snd entry" "map snd entries"]
    by auto
qed

lemma map_entry_keys: "map fst (AList.map_entry k f al) = map fst al"
  by (induction al) auto

lemma link_function_node_keys:
  "map fst (nodes (link_function_node ps b fn)) = map fst (nodes b)
   \<and> topics (link_function_node ps b fn) = topics b"
proof -
  have "map fst (nodes (foldl (\<lambda>w publisher.
              w\<lparr>nodes := AList.map_entry publisher f (nodes w)\<rparr>) b xs)) = map fst (nodes b)
      \<and> topics (foldl (\<lambda>w publisher.
              w\<lparr>nodes := AList.map_entry publisher f (nodes w)\<rparr>) b xs) = topics b" for f xs
    by (induction xs arbitrary: b) (auto simp: map_entry_keys)
  then show ?thesis by (simp add: link_function_node_def)
qed

lemma handle_function_calling_nodes_keys:
  "map fst (nodes (handle_function_calling_nodes b)) = map fst (nodes b)
   \<and> topics (handle_function_calling_nodes b) = topics b"
proof -
  have "map fst (nodes (foldl (link_function_node ps) b fs)) = map fst (nodes b)
      \<and> topics (foldl (link_function_node ps) b fs) = topics b" for ps fs
    by (induction fs arbitrary: b) (auto simp: link_function_node_keys)
  then show ?thesis by (simp add: handle_function_calling_nodes_def Let_def)
qed

lemma build_result:
  "build b = Inr built \<Longrightarrow>
     map fst (nodes built) = map fst (nodes b)
     \<and> fst ` set (topics built) = fst ` set (topics b) \<union> set (referenced_topics (map snd (nodes b)))
     \<and> (has_key (topics built) AGENT_INPUT_TOPIC \<or> has_key (topics built) AGENT_OUTPUT_TOPIC)"
  using foldl_gather_topics_keys [of b "nodes b"]
    handle_function_calling_nodes_keys [of "foldl gather_topics b (nodes b)"]
  by (auto simp: build_def Let_def has_key_def split: if_splits)

lemma build_raises:
  assumes "AGENT_INPUT_TOPIC \<notin> fst ` set (topics b) \<union> set (referenced_topics (map snd (nodes b)))"
      and "AGENT_OUTPUT_TOPIC \<notin> fst ` set (topics b) \<union> set (referenced_topics (map snd (nodes b)))"
  shows "build b = Inl (ValueError ''Agent input output topic not found in workflow topics.'')"
  using assms foldl_gather_topics_keys [of b "nodes b"]
  by (auto simp: build_def Let_def has_key_def)

lemma register_nodes:
  "register b ns = Inr b' \<Longrightarrow> distinct (map fst (nodes b)) \<Longrightarrow>
     \<forall>kv\<in>set (nodes b). Node.name (snd kv) = fst kv \<Longrightarrow>
     map snd (nodes b') = map snd (nodes b) @ ns"
proof (induction ns arbitrary: b)
  case Nil
  then show ?case by simp
next
  case (Cons n ns)
  from Cons.prems(1) obtain b1 where b1: "node b n = Inr b1" and rest: "register b1 ns = Inr b'"
    by (auto simp: and_then_def split: sum.splits)
  from b1 have new: "Node.name n \<notin> set (map fst (nodes b))"
    and b1_eq: "b1 = b\<lparr>nodes := AList.update (Node.name n) n (nodes b)\<rparr>"
    by (auto simp: node_def has_key_def split: if_splits)
  from new b1_eq have nodes1: "nodes b1 = nodes b @ [(Node.name n, n)]"
    by (simp add: update_new_key)
  with new Cons.prems(2,3) have "distinct (map fst (nodes b1))"
    and "\<forall>kv\<in>set (nodes b1). Node.name (snd kv) = fst kv"
    by auto
  from Cons.IH [OF rest this] nodes1 show ?case by simp
qed

text \<open>
  C7. Registering a node under a name that is taken raises \<^verbatim>\<open>DuplicateNodeError\<close>, so a
  list of nodes with a repeated name cannot be constructed. With distinct names,
  \<^verbatim>\<open>build\<close> raises when no node refers to the entry topic or to the terminal topic, in a
  subscription or as a publish target. A workflow that was constructed has the names of
  the nodes, each once, as the keys of \<^verbatim>\<open>nodes\<close>, and holds the entry topic or the
  terminal topic.
\<close>

theorem construct_fails_on_configuration_errors:
  "(has_key (nodes b) (Node.name n) \<longrightarrow> node b n = Inl (DuplicateNodeError (Node.name n)))
   \<and> (\<not> distinct (map Node.name ns) \<longrightarrow> (\<exists>nm. construct ns = Inl (DuplicateNodeError nm)))
   \<and> (distinct (map Node.name ns)
        \<and> AGENT_INPUT_TOPIC \<notin> set (referenced_topics ns)
        \<and> AGENT_OUTPUT_TOPIC \<notin> set (referenced_topics ns) \<longrightarrow>
      construct ns = Inl (ValueError ''Agent input output topic not found in workflow topics.''))
   \<and> (\<forall>built. construct ns = Inr built \<longrightarrow>
         distinct (map fst (nodes built)) \<and> map fst (nodes built) = map Node.name ns
         \<and> (has_key (topics built) AGENT_INPUT_TOPIC \<or> has_key (topics built) AGENT_OUTPUT_TOPIC)
         \<and> (AGENT_INPUT_TOPIC \<in> set (referenced_topics ns)
              \<or> AGENT_OUTPUT_TOPIC \<in> set (referenced_topics ns)))"
proof -
  have dup1: "node b n = Inl (DuplicateNodeError (Node.name n))"
    if "has_key (nodes b) (Node.name n)"
    using that by (simp add: node_def)
  have dup2: "\<exists>nm. construct ns = Inl (DuplicateNodeError nm)"
    if "\<not> distinct (map Node.name ns)"
  proof -
    from that have "\<exists>nm. register Builder ns = Inl (DuplicateNodeError nm)"
      using register_duplicate [of Builder ns] by (simp add: Builder_def)
    then show ?thesis
      by (auto simp: construct_def and_then_def)
  qed
  have empty: "nodes Builder = []" "topics Builder = []"
    by (simp_all add: Builder_def)
  have registered: "map fst (nodes b') = map Node.name ns \<and> distinct (map fst (nodes b'))
      \<and> topics b' = [] \<and> map snd (nodes b') = ns"
    if b': "register Builder ns = Inr b'" for b'
  proof -
    from register_keys [OF b']
    have k: "map fst (nodes b') = map fst (nodes Builder) @ map Node.name ns"
      and d: "distinct (map fst (nodes Builder)) \<longrightarrow> distinct (map fst (nodes b'))"
      and t: "topics b' = topics Builder"
      by blast+
    from k have "map fst (nodes b') = map Node.name ns" by (simp add: empty)
    moreover from d have "distinct (map fst (nodes b'))" by (simp add: empty)
    moreover from t have "topics b' = []" by (simp add: empty)
    moreover from register_nodes [OF b'] have "map snd (nodes b') = ns"
      by (simp add: empty)
    ultimately show ?thesis by blast
  qed
  have missing: "construct ns =
      Inl (ValueError ''Agent input output topic not found in workflow topics.'')"
    if a: "distinct (map Node.name ns) \<and> AGENT_INPUT_TOPIC \<notin> set (referenced_topics ns)
        \<and> AGENT_OUTPUT_TOPIC \<notin> set (referenced_topics ns)"
  proof -
    from a obtain b' where b': "register Builder ns = Inr b'"
      using register_distinct [of Builder ns] by (auto simp: empty)
    from registered [OF b'] a
    have "build b' = Inl (ValueError ''Agent input output topic not found in workflow topics.'')"
      by (intro build_raises) simp_all
    with b' show ?thesis
      by (simp add: construct_def and_then_def)
  qed
  have ok: "distinct (map fst (nodes built)) \<and> map fst (nodes built) = map Node.name ns
         \<and> (has_key (topics built) AGENT_INPUT_TOPIC \<or> has_key (topics built) AGENT_OUTPUT_TOPIC)
         \<and> (AGENT_INPUT_TOPIC \<in> set (referenced_topics ns)
              \<or> AGENT_OUTPUT_TOPIC \<in> set (referenced_topics ns))"
    if c: "construct ns = Inr built" for built
  proof -
    from c obtain b' where b': "register Builder ns = Inr b'" and built: "build b' = Inr built"
      by (auto simp: construct_def and_then_def split: sum.splits)
    from build_result [OF built]
    have r1: "map fst (nodes built) = map fst (nodes b')"
      and r2: "fst ` set (topics built) =
                 fst ` set (topics b') \<union> set (referenced_topics (map snd (nodes b')))"
      and r3: "has_key (topics built) AGENT_INPUT_TOPIC \<or> has_key (topics built) AGENT_OUTPUT_TOPIC"
      by blast+
    from registered [OF b']
    have k: "map fst (nodes b') = map Node.name ns" and d: "distinct (map fst (nodes b'))"
      and t: "topics b' = []" and n: "map snd (nodes b') = ns"
      by blast+
    from r1 d have "distinct (map fst (nodes built))" by simp
    moreover from r1 k have "map fst (nodes built) = map Node.name ns" by simp
    moreover from r2 t n have "fst ` set (topics built) = set (referenced_topics ns)" by simp
    with r3 have "AGENT_INPUT_TOPIC \<in> set (referenced_topics ns)
              \<or> AGENT_OUTPUT_TOPIC \<in> set (referenced_topics ns)"
      by (auto simp: has_key_def)
    ultimately show ?thesis using r3 by blast
  qed
  from dup1 dup2 missing ok show ?thesis by blast
qed

text \<open>Nothing else makes the construction fail.\<close>

lemma build_succeeds:
  assumes "AGENT_INPUT_TOPIC \<in> set (referenced_topics (map snd (nodes b)))
           \<or> AGENT_OUTPUT_TOPIC \<in> set (referenced_topics (map snd (nodes b)))"
  shows "\<exists>built. build b = Inr built"
  using assms foldl_gather_topics_keys [of b "nodes b"]
  by (auto simp: build_def Let_def has_key_def)

lemma construct_succeeds:
  assumes "distinct (map Node.name ns)"
      and "AGENT_INPUT_TOPIC \<in> set (referenced_topics ns)
           \<or> AGENT_OUTPUT_TOPIC \<in> set (referenced_topics ns)"
  shows "\<exists>built. construct ns = Inr built"
proof -
  have empty: "nodes Builder = []" "topics Builder = []"
    by (simp_all add: Builder_def)
  from assms(1) obtain b' where b': "register Builder ns = Inr b'"
    using register_distinct [of Builder ns] by (auto simp: empty)
  from register_nodes [OF b'] have "map snd (nodes b') = ns"
    by (simp add: empty)
  with assms(2) build_succeeds [of b'] obtain built where "build b' = Inr built"
    by auto
  with b' show ?thesis
    by (simp add: construct_def and_then_def)
qed

text \<open>
  C7 at three node lists: one node registered twice, one node between two topics that
  are neither entry nor terminal, and one node from the entry to the terminal topic.
\<close>

theorem construct_fails_on_configuration_errors_witness:
  "has_key (nodes (Builder\<lparr>nodes := [(''n1'', ex_entry_node)]\<rparr>)) (Node.name ex_entry_node)
   \<and> node (Builder\<lparr>nodes := [(''n1'', ex_entry_node)]\<rparr>) ex_entry_node
        = Inl (DuplicateNodeError ''n1'')
   \<and> \<not> distinct (map Node.name [ex_entry_node, ex_entry_node])
   \<and> (\<exists>nm. construct [ex_entry_node, ex_entry_node] = Inl (DuplicateNodeError nm))
   \<and> distinct (map Node.name [ex_stray_node])
   \<and> AGENT_INPUT_TOPIC \<notin> set (referenced_topics [ex_stray_node])
   \<and> AGENT_OUTPUT_TOPIC \<notin> set (referenced_topics [ex_stray_node])
   \<and> construct [ex_stray_node] =
        Inl (ValueError ''Agent input output topic not found in workflow topics.'')
   \<and> (\<exists>built. construct [ex_entry_node] = Inr built
         \<and> map fst (nodes built) = [''n1'']
         \<and> has_key (topics built) AGENT_INPUT_TOPIC)"
proof -
  let ?b = "Builder\<lparr>nodes := [(''n1'', ex_entry_node)]\<rparr>"
  have nm: "Node.name ex_entry_node = ''n1''"
    by (simp add: ex_entry_node_def ex_node_def)
  have h1: "has_key (nodes ?b) (Node.name ex_entry_node)"
    by (simp add: has_key_def nm)
  have h2: "\<not> distinct (map Node.name [ex_entry_node, ex_entry_node])"
    by simp
  have h3: "distinct (map Node.name [ex_stray_node])
      \<and> AGENT_INPUT_TOPIC \<notin> set (referenced_topics [ex_stray_node])
      \<and> AGENT_OUTPUT_TOPIC \<notin> set (referenced_topics [ex_stray_node])"
    by (simp add: referenced_topics_def ex_stray_node_def ex_node_def ex_topic_def
        AGENT_INPUT_TOPIC_def AGENT_OUTPUT_TOPIC_def)
  have "distinct (map Node.name [ex_entry_node])"
    and "AGENT_INPUT_TOPIC \<in> set (referenced_topics [ex_entry_node])"
    by (simp_all add: referenced_topics_def ex_entry_node_def ex_node_def ex_topic_def)
  then obtain built where h4: "construct [ex_entry_node] = Inr built"
    using construct_succeeds [of "[ex_entry_node]"] by blast
  have top: "has_key (topics built) AGENT_INPUT_TOPIC"
    using h4
    by (auto simp: construct_def and_then_def node_def has_key_def Builder_def build_def
        gather_topics_def subscribe_def add_topic_def handle_function_calling_nodes_def
        ex_entry_node_def ex_node_def ex_topic_def Let_def split: if_splits)
  note c1 = construct_fails_on_configuration_errors [of ?b ex_entry_node "[ex_entry_node, ex_entry_node]"]
  note c2 = construct_fails_on_configuration_errors [of ?b ex_entry_node "[ex_stray_node]"]
  note c3 = construct_fails_on_configuration_errors [of ?b ex_entry_node "[ex_entry_node]"]
  from c1 h1 have r1: "node ?b ex_entry_node = Inl (DuplicateNodeError ''n1'')"
    by (simp add: nm)
  from c1 h2 have r2: "\<exists>nm. construct [ex_entry_node, ex_entry_node] = Inl (DuplicateNodeError nm)"
    by blast
  from c2 h3 have r3: "construct [ex_stray_node] =
        Inl (ValueError ''Agent input output topic not found in workflow topics.'')"
    by blast
  from c3 h4 have "map fst (nodes built) = map Node.name [ex_entry_node]"
    by blast
  then have r4: "map fst (nodes built) = [''n1'']"
    by (simp add: nm)
  from h4 r4 top have r5: "\<exists>built. construct [ex_entry_node] = Inr built
         \<and> map fst (nodes built) = [''n1'']
         \<and> has_key (topics built) AGENT_INPUT_TOPIC"
    by (intro exI [of _ built] conjI)
  from h3 have h3a: "distinct (map Node.name [ex_stray_node])"
    and h3b: "AGENT_INPUT_TOPIC \<notin> set (referenced_topics [ex_stray_node])"
    and h3c: "AGENT_OUTPUT_TOPIC \<notin> set (referenced_topics [ex_stray_node])"
    by (rule conjunct1, rule conjunct2 [THEN conjunct1], rule conjunct2 [THEN conjunct2])
  from h1 r1 h2 r2 h3a h3b h3c r3 r5 show ?thesis
    by (intro conjI)
qed


section \<open>Gathering the input of a node\<close>

lemma gather_input_length:
  "length consumed \<le> length (fst (gather_input env n tns consumed s))"
proof (induction tns arbitrary: consumed s)
  case Nil
  then show ?case by simp
next
  case (Cons tn tns)
  show ?case
  proof (cases "map_of (topics s) tn")
    case None
    with Cons.IH show ?thesis by simp
  next
    case (Some t)
    show ?thesis
    proof (cases "can_consume t (Node.name n)")
      case False
      with Some Cons.IH show ?thesis by simp
    next
      case True
      let ?new = "consume_events env n (fst (consume t (Node.name n))) (created s)"
      let ?s2 = "s\<lparr>topics := AList.update tn (snd (consume t (Node.name n))) (topics s),
                    created := created s + length (fst (consume t (Node.name n)))\<rparr>"
      have "length (consumed @ ?new) \<le> length (fst (gather_input env n tns (consumed @ ?new) ?s2))"
        by (rule Cons.IH)
      with Some True show ?thesis by (simp add: Let_def)
    qed
  qed
qed

lemma consume_events_length: "length (consume_events env n es k) = length es"
  by (induction es arbitrary: k) auto

lemma gather_input_nothing:
  "length (fst (gather_input env n tns consumed s)) = length consumed \<Longrightarrow>
     gather_input env n tns consumed s = (consumed, s)"
proof (induction tns arbitrary: consumed s)
  case Nil
  then show ?case by simp
next
  case (Cons tn tns)
  show ?case
  proof (cases "map_of (topics s) tn")
    case None
    with Cons show ?thesis by simp
  next
    case (Some t)
    show ?thesis
    proof (cases "can_consume t (Node.name n)")
      case False
      with Some Cons show ?thesis by simp
    next
      case True
      let ?evs = "fst (consume t (Node.name n))"
      let ?new = "consume_events env n ?evs (created s)"
      let ?s2 = "s\<lparr>topics := AList.update tn (snd (consume t (Node.name n))) (topics s),
                    created := created s + length ?evs\<rparr>"
      from True have "?evs \<noteq> []"
        by (simp add: can_consume_def consume_def)
      then have "length consumed < length (consumed @ ?new)"
        by (simp add: consume_events_length)
      also have "\<dots> \<le> length (fst (gather_input env n tns (consumed @ ?new) ?s2))"
        by (rule gather_input_length)
      finally have "length consumed < length (fst (gather_input env n (tn # tns) consumed s))"
        using Some True by (simp add: Let_def)
      with Cons.prems show ?thesis by simp
    qed
  qed
qed

lemma get_node_input_nothing:
  assumes "fst (get_node_input env n s) = []"
  shows "get_node_input env n s = ([], s)"
  using assms gather_input_nothing [of env n "subscribed_topics n" "[]" s]
  by (simp add: get_node_input_def)

lemma gather_input_skips:
  "\<forall>tn\<in>set tns. nothing_for s (Node.name n) tn \<Longrightarrow>
     gather_input env n tns consumed s = (consumed, s)"
  by (induction tns arbitrary: consumed s)
     (auto simp: nothing_for_def split: option.splits)

lemma gather_input_keeps_nothing:
  "nothing_for s (Node.name n) tn \<Longrightarrow>
     nothing_for (snd (gather_input env n tns consumed s)) (Node.name n) tn"
proof (induction tns arbitrary: consumed s)
  case Nil
  then show ?case by simp
next
  case (Cons tn' tns)
  show ?case
  proof (cases "map_of (topics s) tn'")
    case None
    with Cons show ?thesis by simp
  next
    case (Some t)
    show ?thesis
    proof (cases "can_consume t (Node.name n)")
      case False
      with Some Cons show ?thesis by simp
    next
      case True
      let ?evs = "fst (consume t (Node.name n))"
      let ?s2 = "s\<lparr>topics := AList.update tn' (snd (consume t (Node.name n))) (topics s),
                    created := created s + length ?evs\<rparr>"
      from True Some Cons.prems have "tn \<noteq> tn'"
        by (auto simp: nothing_for_def)
      with Cons.prems have "nothing_for ?s2 (Node.name n) tn"
        by (simp add: nothing_for_def update_conv')
      from Cons.IH [OF this] Some True show ?thesis
        by (simp add: Let_def)
    qed
  qed
qed

lemma consume_leaves_nothing:
  assumes "latest_last t"
  shows "\<not> can_consume (snd (consume t c)) c"
proof (cases "topic_events t = []")
  case True
  then show ?thesis
    by (simp add: consume_def can_consume_def unconsumed_def split: option.splits)
next
  case False
  with assms show ?thesis
    by (auto simp: consume_def can_consume_def unconsumed_def latest_last_def update_conv'
        filter_empty_conv not_less)
qed

lemma consume_keeps_events: "topic_events (snd (consume t c)) = topic_events t"
  by (simp add: consume_def)

lemma set_update_cases:
  "kv \<in> set (AList.update k v al) \<Longrightarrow> kv = (k, v) \<or> kv \<in> set al"
  by (induction al) (auto split: if_splits)

lemma gather_input_leaves_nothing:
  "\<forall>kv\<in>set (topics s). latest_last (snd kv) \<Longrightarrow>
     \<forall>tn\<in>set tns. nothing_for (snd (gather_input env n tns consumed s)) (Node.name n) tn"
proof (induction tns arbitrary: consumed s)
  case Nil
  then show ?case by simp
next
  case (Cons tn tns)
  show ?case
  proof (cases "map_of (topics s) tn")
    case None
    then have "nothing_for s (Node.name n) tn"
      by (simp add: nothing_for_def)
    from gather_input_keeps_nothing [OF this] Cons.IH [OF Cons.prems] None
    show ?thesis by simp
  next
    case (Some t)
    show ?thesis
    proof (cases "can_consume t (Node.name n)")
      case False
      with Some have "nothing_for s (Node.name n) tn"
        by (simp add: nothing_for_def)
      from gather_input_keeps_nothing [OF this] Cons.IH [OF Cons.prems] Some False
      show ?thesis by simp
    next
      case True
      let ?t' = "snd (consume t (Node.name n))"
      let ?evs = "fst (consume t (Node.name n))"
      let ?new = "consume_events env n ?evs (created s)"
      let ?s2 = "s\<lparr>topics := AList.update tn ?t' (topics s),
                    created := created s + length ?evs\<rparr>"
      from Some have "(tn, t) \<in> set (topics s)"
        by (rule map_of_SomeD)
      with Cons.prems have lt: "latest_last t"
        by force
      then have "\<not> can_consume ?t' (Node.name n)"
        by (rule consume_leaves_nothing)
      then have here: "nothing_for ?s2 (Node.name n) tn"
        by (simp add: nothing_for_def update_conv')
      have "latest_last ?t'"
        using lt by (simp add: latest_last_def consume_keeps_events)
      with Cons.prems have inv: "\<forall>kv\<in>set (topics ?s2). latest_last (snd kv)"
        by (auto dest: set_update_cases)
      from gather_input_keeps_nothing [OF here, of env tns "consumed @ ?new"]
        Cons.IH [OF inv, of "consumed @ ?new"] Some True
      show ?thesis by (simp add: Let_def)
    qed
  qed
qed

text \<open>
  C10. When \<^verbatim>\<open>get_node_input\<close> returns the empty list for the node taken from the queue,
  the round of the loop leaves the state as it was, but for the queue, which has lost the
  node: the node body is not run, no topic has a new event, no event is created and the
  store is as before. And once a node has gathered its input, gathering again before
  anything is published gives the empty list and changes nothing, so a second entry of
  the node in the queue is such a round.
\<close>

theorem empty_input_is_a_no_op:
  "(fst (get_node_input env n s) = [] \<longrightarrow> execute_node env ctx n s = (Inr (), s))
   \<and> (execution_queue s = n # rest
        \<and> fst (get_node_input env n (s\<lparr>execution_queue := rest\<rparr>)) = [] \<longrightarrow>
      execute_step env ctx s = (Inr (), s\<lparr>execution_queue := rest\<rparr>)
      \<and> event_store (snd (execute_step env ctx s)) = event_store s
      \<and> invoked (snd (execute_step env ctx s)) = invoked s
      \<and> topics (snd (execute_step env ctx s)) = topics s
      \<and> created (snd (execute_step env ctx s)) = created s)
   \<and> ((\<forall>kv\<in>set (topics s). latest_last (snd kv)) \<longrightarrow>
        get_node_input env n (snd (get_node_input env n s))
          = ([], snd (get_node_input env n s)))"
proof -
  have a: "execute_node env ctx n s' = (Inr (), s')"
    if "fst (get_node_input env n s') = []" for s'
    using that get_node_input_nothing [OF that]
    by (simp add: execute_node_def)
  have b: "execute_step env ctx s = (Inr (), s\<lparr>execution_queue := rest\<rparr>)"
    if "execution_queue s = n # rest"
      and "fst (get_node_input env n (s\<lparr>execution_queue := rest\<rparr>)) = []"
    using that a [of "s\<lparr>execution_queue := rest\<rparr>"]
    by (simp add: execute_step_def)
  have c: "get_node_input env n (snd (get_node_input env n s))
          = ([], snd (get_node_input env n s))"
    if "\<forall>kv\<in>set (topics s). latest_last (snd kv)"
    using gather_input_leaves_nothing [OF that, of "subscribed_topics n" env n "[]"]
    by (simp add: get_node_input_def gather_input_skips)
  from a [of s] b c show ?thesis by simp
qed

text \<open>
  C10 at a workflow with one node between the entry and the terminal topic, after a
  fresh \<^verbatim>\<open>initial_workflow\<close>: the node gathers one event, and gathers nothing when it is
  taken from the queue once more.
\<close>

theorem empty_input_is_a_no_op_witness:
  "length (fst (get_node_input ex_env ex_entry_node ex_begun)) = 1
   \<and> fst (get_node_input ex_env ex_entry_node ex_drained) = []
   \<and> execute_node ex_env ex_context ex_entry_node ex_drained = (Inr (), ex_drained)
   \<and> execution_queue ex_drained = ex_entry_node # []
   \<and> fst (get_node_input ex_env ex_entry_node (ex_drained\<lparr>execution_queue := []\<rparr>)) = []
   \<and> execute_step ex_env ex_context ex_drained = (Inr (), ex_drained\<lparr>execution_queue := []\<rparr>)
   \<and> list_all (\<lambda>kv. latest_last (snd kv)) (topics ex_begun)
   \<and> get_node_input ex_env ex_entry_node (snd (get_node_input ex_env ex_entry_node ex_begun))
        = ([], snd (get_node_input ex_env ex_entry_node ex_begun))"
proof -
  have h0: "length (fst (get_node_input ex_env ex_entry_node ex_begun)) = 1"
    by code_simp
  have h1: "fst (get_node_input ex_env ex_entry_node ex_drained) = []"
    by code_simp
  have h2: "execution_queue ex_drained = ex_entry_node # []"
    by (simp add: ex_drained_def)
  have h3: "fst (get_node_input ex_env ex_entry_node (ex_drained\<lparr>execution_queue := []\<rparr>)) = []"
    by code_simp
  have h4: "\<forall>kv\<in>set (topics ex_begun). latest_last (snd kv)"
    by code_simp
  note t1 = empty_input_is_a_no_op [of ex_env ex_entry_node ex_drained ex_context "[]"]
  note t2 = empty_input_is_a_no_op [of ex_env ex_entry_node ex_begun ex_context "[]"]
  from t1 h1 have r1: "execute_node ex_env ex_context ex_entry_node ex_drained = (Inr (), ex_drained)"
    by (rule conjunct1 [THEN mp])
  from t1 h2 h3 have r2: "execute_step ex_env ex_context ex_drained
      = (Inr (), ex_drained\<lparr>execution_queue := []\<rparr>)"
    by (meson conjunct1 conjunct2)
  from t2 h4 have r3: "get_node_input ex_env ex_entry_node
        (snd (get_node_input ex_env ex_entry_node ex_begun))
        = ([], snd (get_node_input ex_env ex_entry_node ex_begun))"
    by (meson conjunct1 conjunct2)
  from h4 have h5: "list_all (\<lambda>kv. latest_last (snd kv)) (topics ex_begun)"
    by (simp add: list_all_iff)
  from h0 h1 r1 h2 h3 r2 h5 r3 show ?thesis
    by (intro conjI)
qed


section \<open>A fresh run\<close>

text \<open>
  C4 fails for a workflow without entry topic. \<^verbatim>\<open>build\<close> accepts the workflow of
  \<open>ex_sink_node\<close>, whose topics are \<open>T\<close> and the terminal topic. The store is
  empty, so the request has no publish or consume event. \<^verbatim>\<open>initial_workflow\<close> raises
  an \<^verbatim>\<open>AttributeError\<close> (\<^verbatim>\<open>self.topics.get(AGENT_INPUT_TOPIC)\<close> is \<^verbatim>\<open>None\<close>) and the
  store stays empty: no publish event is recorded.
\<close>

theorem fresh_run_without_entry_topic:
  "(case construct [ex_sink_node] of Inl x \<Rightarrow> False | Inr w \<Rightarrow> map fst (topics w) = [''T'', AGENT_OUTPUT_TOPIC])
   \<and> get_agent_events [] (assistant_request_id ex_context) = Inr []
   \<and> fst (initial_workflow ex_env ex_context [ex_message] (start (ex_built [ex_sink_node]) []))
        = Inl AttributeError
   \<and> event_store (snd (initial_workflow ex_env ex_context [ex_message]
                          (start (ex_built [ex_sink_node]) []))) = []"
  by code_simp

text \<open>
  With an entry topic the claim holds as far as the topic takes the publish: a fresh
  run that returns has recorded one event, the publish event of the entry topic with the
  seeded messages as data, or \<^verbatim>\<open>None\<close> when the topic declined. It returns when the
  subscribers are known.
\<close>

lemma thn_Inr:
  "thn r f = (Inr v, s') \<Longrightarrow> \<exists>u s1. r = (Inr u, s1) \<and> f u s1 = (Inr v, s')"
  by (cases r) (auto simp: thn_def split: sum.splits)

lemma enqueue_ready_frame:
  "enqueue_ready ns s = (r, s') \<Longrightarrow>
     event_store s' = event_store s \<and> topics s' = topics s \<and> created s' = created s
     \<and> invoked s' = invoked s \<and> nodes s' = nodes s \<and> topic_nodes s' = topic_nodes s"
  by (induction ns arbitrary: s) (auto split: option.splits if_splits)

lemma on_event_frame:
  "on_event ev s = (r, s') \<Longrightarrow>
     event_store s' = event_store s \<and> topics s' = topics s \<and> created s' = created s
     \<and> invoked s' = invoked s \<and> nodes s' = nodes s \<and> topic_nodes s' = topic_nodes s"
  by (auto simp: on_event_def split: StoredEvent.splits option.splits dest: enqueue_ready_frame)

lemma publish_store:
  "publish env ctx pn pt d consumed tn s = (r, s') \<Longrightarrow> event_store s' = event_store s"
  by (auto simp: publish_def thn_def split: option.splits prod.splits sum.splits
      dest: on_event_frame)

lemma publish_Some:
  assumes "publish env ctx pn pt d consumed tn s = (Inr (Some ev), s')"
  shows "\<exists>t p. map_of (topics s) tn = Some t \<and> accepts t d
      \<and> (ev = Publish p \<or> ev = OutputPublish p)
      \<and> data p = d \<and> execution_context p = ctx \<and> publisher_name p = pn
      \<and> publisher_type p = pt \<and> consumed_event_ids p = map event_id consumed
      \<and> topic_name p = Topic.name t \<and> offset p = int (length (topic_events t))
      \<and> event_id p = fst (new_event env (created s))"
  using assms
  by (auto simp: publish_def publish_data_def thn_def Let_def
      split: option.splits prod.splits sum.splits if_splits)

lemma publish_None:
  assumes "publish env ctx pn pt d consumed tn s = (Inr None, s')"
  shows "s' = s \<and> (\<forall>t. map_of (topics s) tn = Some t \<longrightarrow> \<not> accepts t d)"
  using assms
  by (auto simp: publish_def publish_data_def thn_def Let_def
      split: option.splits prod.splits sum.splits if_splits)

lemma reset_topics_lookup:
  "map_of (topics (reset_topics s)) tn = map_option reset (map_of (topics s) tn)"
proof -
  have "map_of (map (\<lambda>kv. (fst kv, reset (snd kv))) al) tn = map_option reset (map_of al tn)" for al
    by (induction al) auto
  then show ?thesis by (simp add: reset_topics_def)
qed

lemma reset_topics_store [simp]: "event_store (reset_topics s) = event_store s"
  by (simp add: reset_topics_def)

lemma fresh_run_records:
  assumes "fresh_run env ctx inp s = (Inr (), s')"
      and "get_conversation_events (event_store s) (conversation_id ctx) = Inr conversation_events"
  shows "\<exists>t. map_of (topics s) AGENT_INPUT_TOPIC = Some t
     \<and> (if accepts t (Many (seed_messages conversation_events inp))
         then \<exists>p. event_store s' =
                    event_store s @ [if kind t = OutputTopic then OutputPublish p else Publish p]
                \<and> data p = Many (seed_messages conversation_events inp)
                \<and> topic_name p = Topic.name t \<and> offset p = int (length (topic_events t))
                \<and> execution_context p = ctx \<and> consumed_event_ids p = []
                \<and> publisher_name p = EventDrivenWorkflow.name s
         else event_store s' = event_store s @ [NoEvent])"
proof -
  from assms obtain t where t: "map_of (topics s) AGENT_INPUT_TOPIC = Some t"
    by (auto simp: fresh_run_def split: option.splits)
  let ?d = "Many (seed_messages conversation_events inp)"
  from assms t obtain ev s1 where
    pub: "publish env ctx (EventDrivenWorkflow.name s) (EventDrivenWorkflow.type s) ?d []
            AGENT_INPUT_TOPIC s = (Inr ev, s1)"
    and s': "s' = s1\<lparr>event_store := record_event (case ev of None \<Rightarrow> NoEvent | Some e \<Rightarrow> e)
                                       (event_store s1)\<rparr>"
    by (auto simp: fresh_run_def dest!: thn_Inr)
  from publish_store [OF pub] have st: "event_store s1 = event_store s" .
  show ?thesis
  proof (cases ev)
    case None
    with publish_None [of env ctx _ _ ?d "[]" AGENT_INPUT_TOPIC s s1] pub t
    have "\<not> accepts t ?d" by auto
    with None s' st t show ?thesis
      by (simp add: record_event_def)
  next
    case (Some e)
    with publish_Some [of env ctx _ _ ?d "[]" AGENT_INPUT_TOPIC s e s1] pub t
    obtain p where acc: "accepts t ?d" and e: "e = Publish p \<or> e = OutputPublish p"
      and p: "data p = ?d" "execution_context p = ctx"
        "publisher_name p = EventDrivenWorkflow.name s" "consumed_event_ids p = []"
        "topic_name p = Topic.name t" "offset p = int (length (topic_events t))"
      by auto
    from pub Some t acc have "e = (if kind t = OutputTopic then OutputPublish p' else Publish p')"
      if "e = Publish p' \<or> e = OutputPublish p'" for p'
      using that
      by (auto simp: publish_def publish_data_def thn_def Let_def
          split: option.splits prod.splits sum.splits if_splits)
    with e have "e = (if kind t = OutputTopic then OutputPublish p else Publish p)"
      by blast
    with Some s' st t acc p show ?thesis
      by (auto simp: record_event_def)
  qed
qed

lemma initial_workflow_fresh:
  assumes "get_agent_events (event_store s) (assistant_request_id ctx) = Inr agent_events"
      and "topic_events_in agent_events = []"
  shows "initial_workflow env ctx inp s = fresh_run env ctx inp (reset_topics s)"
  using assms by (simp add: initial_workflow_def Let_def)

text \<open>
  The seeded messages, when no two assistant respond events of the conversation share
  an id: their input and output messages, sorted by timestamp, then the new input.
\<close>

lemma assistant_responds_snoc:
  "assistant_responds (es @ [e]) =
     assistant_responds es @ (case e of AssistantRespond a \<Rightarrow> [a] | _ \<Rightarrow> [])"
  by (cases e) (simp_all add: assistant_responds_def List.map_filter_def)

lemma assistant_respond_event_dict_eq:
  "distinct (map event_id (assistant_responds es)) \<Longrightarrow>
     assistant_respond_event_dict es = map (\<lambda>a. (event_id a, a)) (assistant_responds es)"
proof (induction es rule: rev_induct)
  case Nil
  then show ?case
    by (simp add: assistant_respond_event_dict_def assistant_responds_def List.map_filter_def)
next
  case (snoc e es)
  from snoc.prems have d: "distinct (map event_id (assistant_responds es))"
    by (simp add: assistant_responds_snoc)
  note ih = snoc.IH [OF d]
  show ?case
  proof (cases e)
    case (AssistantRespond a)
    with snoc.prems have "event_id a \<notin> set (map fst (assistant_respond_event_dict es))"
      by (auto simp: ih assistant_responds_snoc)
    then have "AList.update (event_id a) a (assistant_respond_event_dict es) =
        assistant_respond_event_dict es @ [(event_id a, a)]"
      by (rule update_new_key)
    with AssistantRespond ih show ?thesis
      by (simp add: assistant_respond_event_dict_def assistant_responds_snoc)
  qed (use ih in \<open>simp_all add: assistant_respond_event_dict_def assistant_responds_snoc\<close>)
qed

lemma seed_messages_eq:
  assumes "distinct (map event_id (assistant_responds conversation_events))"
  shows "seed_messages conversation_events inp =
     sort_key Message.timestamp
       (concat (map (\<lambda>a. AssistantRespondEvent.input_data a @ AssistantRespondEvent.output_data a)
                  (assistant_responds conversation_events))) @ inp"
  by (simp add: seed_messages_def assistant_respond_event_dict_eq [OF assms] comp_def)

lemma enqueue_ready_succeeds:
  "\<forall>nn\<in>set ns. has_key (nodes s) nn \<Longrightarrow> \<exists>s'. enqueue_ready ns s = (Inr (), s')"
proof (induction ns arbitrary: s)
  case Nil
  then show ?case by simp
next
  case (Cons nn ns)
  then have "nn \<in> fst ` set (nodes s)"
    by (simp add: has_key_def)
  then have "map_of (nodes s) nn \<noteq> None"
    by (simp add: map_of_eq_None_iff)
  then obtain n where n: "map_of (nodes s) nn = Some n"
    by blast
  let ?s1 = "if ready s n then s\<lparr>execution_queue := execution_queue s @ [n]\<rparr> else s"
  from Cons.prems have "\<forall>nn\<in>set ns. has_key (nodes ?s1) nn" by simp
  from Cons.IH [OF this] n show ?case by simp
qed

lemma on_event_succeeds:
  assumes "subscribers_known s"
  shows "\<exists>s'. on_event ev s = (Inr (), s')"
proof (cases ev)
  case (Publish p)
  show ?thesis
  proof (cases "map_of (topic_nodes s) (topic_name p)")
    case None
    with Publish show ?thesis by (simp add: on_event_def)
  next
    case (Some ns)
    then have "(topic_name p, ns) \<in> set (topic_nodes s)" by (rule map_of_SomeD)
    with assms have "\<forall>nn\<in>set ns. has_key (nodes s) nn"
      by (force simp: subscribers_known_def)
    from enqueue_ready_succeeds [OF this] Publish Some show ?thesis
      by (simp add: on_event_def)
  qed
qed (simp_all add: on_event_def)

lemma fresh_run_succeeds:
  assumes "subscribers_known s"
      and "get_conversation_events (event_store s) (conversation_id ctx) = Inr conversation_events"
      and "map_of (topics s) AGENT_INPUT_TOPIC = Some t"
  shows "\<exists>s'. fresh_run env ctx inp s = (Inr (), s')"
proof -
  let ?d = "Many (seed_messages conversation_events inp)"
  let ?pd = "publish_data t (new_event env (created s)) ctx (EventDrivenWorkflow.name s)
               (EventDrivenWorkflow.type s) ?d []"
  show ?thesis
  proof (cases "fst ?pd")
    case None
    with assms(2,3) show ?thesis
      by (auto simp: fresh_run_def publish_def thn_def split: prod.splits)
  next
    case (Some ev)
    let ?s1 = "s\<lparr>topics := AList.update AGENT_INPUT_TOPIC (snd ?pd) (topics s),
                  created := Suc (created s)\<rparr>"
    from assms(1) have "subscribers_known ?s1"
      by (simp add: subscribers_known_def)
    from on_event_succeeds [OF this, of ev] obtain s2 where "on_event ev ?s1 = (Inr (), s2)"
      by blast
    with Some assms(2,3) show ?thesis
      by (auto simp: fresh_run_def publish_def thn_def split: prod.splits)
  qed
qed


section \<open>The asynchronous mode\<close>

lemma gather_input_frame:
  "gather_input env n tns consumed s = (res, s') \<Longrightarrow>
     event_store s' = event_store s \<and> invoked s' = invoked s
     \<and> execution_queue s' = execution_queue s \<and> nodes s' = nodes s
     \<and> topic_nodes s' = topic_nodes s"
  by (induction tns arbitrary: consumed s) (auto simp: Let_def split: option.splits if_splits)

lemma get_node_input_frame:
  "event_store (snd (get_node_input env n s)) = event_store s
   \<and> invoked (snd (get_node_input env n s)) = invoked s
   \<and> execution_queue (snd (get_node_input env n s)) = execution_queue s
   \<and> nodes (snd (get_node_input env n s)) = nodes s
   \<and> topic_nodes (snd (get_node_input env n s)) = topic_nodes s"
  using gather_input_frame [of env n "subscribed_topics n" "[]" s]
  by (cases "gather_input env n (subscribed_topics n) [] s") (simp add: get_node_input_def)

lemma publish_frame:
  "publish env ctx pn pt d consumed tn s = (r, s') \<Longrightarrow>
     event_store s' = event_store s \<and> invoked s' = invoked s \<and> nodes s' = nodes s
     \<and> topic_nodes s' = topic_nodes s"
  by (auto simp: publish_def thn_def split: option.splits prod.splits sum.splits
      dest: on_event_frame)

lemma keyed_by_name_iff:
  "keyed_by_name s = (\<forall>kv\<in>set (topics s). Topic.name (snd kv) = fst kv)"
  by (simp add: keyed_by_name_def list_all_iff)

lemma static_of_simps [simp]:
  "static_of (snd (consume t c)) = static_of t"
  "static_of (snd (publish_data t st ctx pn pt d consumed)) = static_of t"
  "static_of (restore_topic t ev) = static_of t"
  "static_of (reset t) = static_of t"
  by (auto simp: static_of_def consume_def publish_data_def restore_topic_def reset_def Let_def
      split: StoredEvent.splits)

lemma statics_update:
  "map_of (topics s) tn = Some t \<Longrightarrow> static_of t' = static_of t \<Longrightarrow>
     map_option static_of (map_of (AList.update tn t' (topics s)) k) = statics s k"
  by (auto simp: statics_def update_conv')

lemma gather_input_statics:
  "statics (snd (gather_input env n tns consumed s)) = statics s"
proof (induction tns arbitrary: consumed s)
  case Nil
  then show ?case by simp
next
  case (Cons tn tns)
  show ?case
  proof (cases "map_of (topics s) tn")
    case None
    with Cons.IH show ?thesis by simp
  next
    case (Some t)
    show ?thesis
    proof (cases "can_consume t (Node.name n)")
      case False
      with Some Cons.IH show ?thesis by simp
    next
      case True
      let ?s2 = "s\<lparr>topics := AList.update tn (snd (consume t (Node.name n))) (topics s),
                    created := created s + length (fst (consume t (Node.name n)))\<rparr>"
      have "statics ?s2 = statics s"
        using statics_update [OF Some, of "snd (consume t (Node.name n))"]
        by (auto simp: statics_def)
      with Cons.IH [of _ ?s2] Some True show ?thesis
        by (simp add: Let_def)
    qed
  qed
qed

lemma get_node_input_statics: "statics (snd (get_node_input env n s)) = statics s"
  by (simp add: get_node_input_def gather_input_statics)

lemma on_event_topics: "on_event ev s = (r, s') \<Longrightarrow> topics s' = topics s"
  by (auto dest: on_event_frame)

lemma publish_cases:
  assumes "publish env ctx pn pt d consumed tn s = (r, s')"
  obtains (unregistered) "map_of (topics s) tn = None" "r = Inr None" "s' = s"
    | (declined) t where "map_of (topics s) tn = Some t"
        "fst (publish_data t (new_event env (created s)) ctx pn pt d consumed) = None"
        "r = Inr None" "s' = s"
    | (taken) t ev r1 where "map_of (topics s) tn = Some t"
        "fst (publish_data t (new_event env (created s)) ctx pn pt d consumed) = Some ev"
        "on_event ev (s\<lparr>topics := AList.update tn
                          (snd (publish_data t (new_event env (created s)) ctx pn pt d consumed))
                          (topics s),
                        created := Suc (created s)\<rparr>) = (r1, s')"
        "r = (case r1 of Inl x \<Rightarrow> Inl x | Inr u \<Rightarrow> Inr (Some ev))"
proof (cases "map_of (topics s) tn")
  case None
  with assms have "r = Inr None" and "s' = s" by (simp_all add: publish_def)
  with None show ?thesis by (rule unregistered)
next
  case (Some t)
  let ?pd = "publish_data t (new_event env (created s)) ctx pn pt d consumed"
  obtain x t' where pd: "?pd = (x, t')" by (cases ?pd)
  show ?thesis
  proof (cases x)
    case None
    with assms Some pd have "r = Inr None" and "s' = s"
      by (simp_all add: publish_def)
    moreover from pd None have "fst ?pd = None" by simp
    ultimately show ?thesis using declined [OF Some] by blast
  next
    case ev: (Some ev)
    let ?s1 = "s\<lparr>topics := AList.update tn t' (topics s), created := Suc (created s)\<rparr>"
    obtain r1 s2 where oe: "on_event ev ?s1 = (r1, s2)" by (cases "on_event ev ?s1")
    with assms Some ev pd have "s' = s2"
      and "r = (case r1 of Inl x \<Rightarrow> Inl x | Inr u \<Rightarrow> Inr (Some ev))"
      by (simp_all add: publish_def thn_def split: sum.splits)
    moreover from pd ev have "fst ?pd = Some ev" and "snd ?pd = t'" by simp_all
    ultimately show ?thesis using taken [OF Some, of ev r1] oe by simp
  qed
qed

lemma statics_cong: "topics s' = topics s \<Longrightarrow> statics s' = statics s"
  by (auto simp: statics_def)

lemma keyed_cong: "topics s' = topics s \<Longrightarrow> keyed_by_name s' = keyed_by_name s"
  by (simp add: keyed_by_name_iff)

lemma keyed_update:
  assumes "keyed_by_name s" and "map_of (topics s) tn = Some t"
      and "static_of t' = static_of t"
  shows "keyed_by_name (s\<lparr>topics := AList.update tn t' (topics s), created := k\<rparr>)"
proof -
  from assms(1,2) have "Topic.name t = tn"
    by (auto simp: keyed_by_name_iff dest!: map_of_SomeD)
  with assms(3) have "Topic.name t' = tn" by (simp add: static_of_def)
  with assms(1) show ?thesis
    by (auto simp: keyed_by_name_iff dest!: set_update_cases)
qed

lemma publish_statics:
  assumes "publish env ctx pn pt d consumed tn s = (r, s')"
  shows "statics s' = statics s \<and> (keyed_by_name s \<longrightarrow> keyed_by_name s')"
  using assms
proof (cases rule: publish_cases)
  case (taken t ev r1)
  let ?pd = "publish_data t (new_event env (created s)) ctx pn pt d consumed"
  let ?s1 = "s\<lparr>topics := AList.update tn (snd ?pd) (topics s), created := Suc (created s)\<rparr>"
  have st: "statics ?s1 = statics s"
    using statics_update [OF taken(1), of "snd ?pd"] by (auto simp: statics_def)
  have k: "keyed_by_name s \<Longrightarrow> keyed_by_name ?s1"
    using keyed_update [OF _ taken(1), of "snd ?pd"] by simp
  from on_event_topics [OF taken(3)] st k show ?thesis
    using statics_cong [of s' ?s1] keyed_cong [of s' ?s1] by simp
qed simp_all

lemma keyed_by_name_statics:
  "keyed_by_name s \<Longrightarrow> statics s tn = Some (nm, k, c) \<Longrightarrow> nm = tn"
  by (auto simp: keyed_by_name_iff statics_def static_of_def dest!: map_of_SomeD)

lemma publish_all_Inr:
  "publish_all env ctx n d consumed ts acc s = (Inr pubs, s') \<Longrightarrow>
     set (map Topic.name ts) \<subseteq> set (map Topic.name (publish_to n)) \<Longrightarrow>
     keyed_by_name s \<Longrightarrow>
     event_store s' = event_store s \<and> invoked s' = invoked s \<and> statics s' = statics s
     \<and> (\<exists>new. pubs = acc @ new \<and> (\<forall>ev\<in>set new. carries n consumed d ev)
          \<and> (\<forall>t\<in>set ts. \<forall>nm k c. statics s (Topic.name t) = Some (nm, k, c) \<and> c d
                \<and> k \<noteq> InputTopic \<longrightarrow>
                (\<exists>ev\<in>set new. \<exists>p. publish_part ev = Some p \<and> topic_name p = Topic.name t)))"
proof (induction ts arbitrary: acc s)
  case Nil
  then show ?case by simp
next
  case (Cons t ts)
  from Cons.prems(1) obtain ev s1 where
    pub: "publish env ctx (Node.name n) (Node.type n) d consumed (Topic.name t) s = (Inr ev, s1)"
    and rest: "publish_all env ctx n d consumed ts
                 (case ev of None \<Rightarrow> acc | Some e \<Rightarrow> acc @ [e]) s1 = (Inr pubs, s')"
    by (auto dest!: thn_Inr)
  from Cons.prems(2) have sub: "set (map Topic.name ts) \<subseteq> set (map Topic.name (publish_to n))"
    and here: "Topic.name t \<in> set (map Topic.name (publish_to n))"
    by auto
  from publish_statics [OF pub] have st1: "statics s1 = statics s"
    by blast
  from publish_statics [OF pub] Cons.prems(3) have keyed1: "keyed_by_name s1"
    by blast
  note ih = Cons.IH [OF rest sub keyed1]
  from ih have "event_store s' = event_store s1" by (rule conjunct1)
  with publish_frame [OF pub] have fr1: "event_store s' = event_store s" by simp
  from ih have "invoked s' = invoked s1" by (rule conjunct1 [OF conjunct2])
  with publish_frame [OF pub] have fr2: "invoked s' = invoked s" by simp
  from ih have "statics s' = statics s1" by (rule conjunct1 [OF conjunct2 [OF conjunct2]])
  with st1 have fr3: "statics s' = statics s" by simp
  note fr = fr1 fr2 fr3
  from ih have "\<exists>new. pubs = (case ev of None \<Rightarrow> acc | Some e \<Rightarrow> acc @ [e]) @ new
      \<and> (\<forall>ev\<in>set new. carries n consumed d ev)
      \<and> (\<forall>t\<in>set ts. \<forall>nm k c. statics s1 (Topic.name t) = Some (nm, k, c) \<and> c d
                \<and> k \<noteq> InputTopic \<longrightarrow>
                (\<exists>ev\<in>set new. \<exists>p. publish_part ev = Some p \<and> topic_name p = Topic.name t))"
    by (rule conjunct2 [OF conjunct2 [OF conjunct2]])
  then obtain new where new: "pubs = (case ev of None \<Rightarrow> acc | Some e \<Rightarrow> acc @ [e]) @ new"
      "\<forall>ev\<in>set new. carries n consumed d ev"
    and cov1: "\<forall>t\<in>set ts. \<forall>nm k c. statics s1 (Topic.name t) = Some (nm, k, c) \<and> c d
                \<and> k \<noteq> InputTopic \<longrightarrow>
                (\<exists>ev\<in>set new. \<exists>p. publish_part ev = Some p \<and> topic_name p = Topic.name t)"
    by (elim exE conjE)
  have cov: "\<exists>ev\<in>set new. \<exists>p. publish_part ev = Some p \<and> topic_name p = Topic.name t'"
    if "t' \<in> set ts" and "statics s (Topic.name t') = Some (nm, k, c)" and "c d"
      and "k \<noteq> InputTopic" for t' nm k c
    using cov1 that unfolding st1 by blast
  show ?case
  proof (cases ev)
    case None
    from publish_None [OF pub [unfolded None]]
    have "\<forall>t0. map_of (topics s) (Topic.name t) = Some t0 \<longrightarrow> \<not> accepts t0 d" by blast
    then have no: "\<not> (\<exists>nm k c. statics s (Topic.name t) = Some (nm, k, c) \<and> c d \<and> k \<noteq> InputTopic)"
      by (auto simp: statics_def static_of_def accepts_def)
    have "\<exists>ev\<in>set new. \<exists>p. publish_part ev = Some p \<and> topic_name p = Topic.name t'"
      if "t' \<in> set (t # ts)" and "statics s (Topic.name t') = Some (nm, k, c)" and "c d"
        and "k \<noteq> InputTopic" for t' nm k c
    proof (cases "t' \<in> set ts")
      case True
      from cov [OF True that(2,3,4)] show ?thesis .
    next
      case False
      with that(1) have "t' = t" by simp
      with no that(2,3,4) show ?thesis by blast
    qed
    then have "\<forall>t'\<in>set (t # ts). \<forall>nm k c. statics s (Topic.name t') = Some (nm, k, c) \<and> c d
                \<and> k \<noteq> InputTopic \<longrightarrow>
                (\<exists>ev\<in>set new. \<exists>p. publish_part ev = Some p \<and> topic_name p = Topic.name t')"
      by blast
    moreover from None new have "pubs = acc @ new" by simp
    ultimately show ?thesis using fr new(2) by blast
  next
    case (Some e)
    from publish_Some [OF pub [unfolded Some]] obtain t0 p where
      t0: "map_of (topics s) (Topic.name t) = Some t0" and e: "e = Publish p \<or> e = OutputPublish p"
      and p: "data p = d" "publisher_name p = Node.name n"
      "consumed_event_ids p = map event_id consumed" "topic_name p = Topic.name t0"
      by blast
    from t0 Cons.prems(3) have "Topic.name t0 = Topic.name t"
      by (auto simp: keyed_by_name_iff dest!: map_of_SomeD)
    with e p here have ce: "carries n consumed d e" and pe: "publish_part e = Some p"
      and tp: "topic_name p = Topic.name t"
      by (auto simp: carries_def)
    let ?new = "e # new"
    have "\<exists>ev\<in>set ?new. \<exists>p. publish_part ev = Some p \<and> topic_name p = Topic.name t'"
      if "t' \<in> set (t # ts)" and "statics s (Topic.name t') = Some (nm, k, c)" and "c d"
        and "k \<noteq> InputTopic" for t' nm k c
    proof (cases "t' \<in> set ts")
      case True
      from cov [OF True that(2,3,4)] show ?thesis by auto
    next
      case False
      with that(1) have "t' = t" by simp
      with pe tp show ?thesis by simp
    qed
    then have "\<forall>t'\<in>set (t # ts). \<forall>nm k c. statics s (Topic.name t') = Some (nm, k, c) \<and> c d
                \<and> k \<noteq> InputTopic \<longrightarrow>
                (\<exists>ev\<in>set ?new. \<exists>p. publish_part ev = Some p \<and> topic_name p = Topic.name t')"
      by blast
    moreover from Some new have "pubs = acc @ ?new" by simp
    moreover from ce new(2) have "\<forall>ev\<in>set ?new. carries n consumed d ev" by simp
    ultimately show ?thesis using fr by blast
  qed
qed

lemma gather_input_keyed:
  "keyed_by_name s \<Longrightarrow> keyed_by_name (snd (gather_input env n tns consumed s))"
proof (induction tns arbitrary: consumed s)
  case Nil
  then show ?case by simp
next
  case (Cons tn tns)
  show ?case
  proof (cases "map_of (topics s) tn")
    case None
    with Cons show ?thesis by simp
  next
    case (Some t)
    show ?thesis
    proof (cases "can_consume t (Node.name n)")
      case False
      with Some Cons show ?thesis by simp
    next
      case True
      from keyed_update [OF Cons.prems Some, of "snd (consume t (Node.name n))"]
      have "keyed_by_name (s\<lparr>topics := AList.update tn (snd (consume t (Node.name n))) (topics s),
                    created := created s + length (fst (consume t (Node.name n)))\<rparr>)"
        by simp
      from Cons.IH [OF this] Some True show ?thesis
        by (simp add: Let_def)
    qed
  qed
qed

lemma get_node_input_keyed:
  "keyed_by_name s \<Longrightarrow> keyed_by_name (snd (get_node_input env n s))"
  by (simp add: get_node_input_def gather_input_keyed)

lemma publish_events_Inr:
  assumes "publish_events env n ctx d consumed s = (Inr (), s')" and "keyed_by_name s"
  shows "invoked s' = invoked s
     \<and> (\<exists>published. event_store s' = event_store s @ map Consume consumed @ published
           \<and> list_all (carries n consumed d) published \<and> reaches s n d published)"
proof -
  from assms(1) obtain pubs s1 where
    pa: "publish_all env ctx n d consumed (publish_to n) [] s = (Inr pubs, s1)"
    and s': "s' = s1\<lparr>event_store := record_events (map Consume consumed @ pubs) (event_store s1)\<rparr>"
    unfolding publish_events_def by (auto dest!: thn_Inr)
  note all = publish_all_Inr [OF pa subset_refl assms(2)]
  from all have e: "event_store s1 = event_store s" by (rule conjunct1)
  from all have i: "invoked s1 = invoked s" by (rule conjunct1 [OF conjunct2])
  from all have "\<exists>new. pubs = [] @ new \<and> (\<forall>ev\<in>set new. carries n consumed d ev)
          \<and> (\<forall>t\<in>set (publish_to n). \<forall>nm k c. statics s (Topic.name t) = Some (nm, k, c) \<and> c d
                \<and> k \<noteq> InputTopic \<longrightarrow>
                (\<exists>ev\<in>set new. \<exists>p. publish_part ev = Some p \<and> topic_name p = Topic.name t))"
    by (rule conjunct2 [OF conjunct2 [OF conjunct2]])
  then have "list_all (carries n consumed d) pubs" and "reaches s n d pubs"
    by (simp_all add: list_all_iff reaches_def)
  with e i s' show ?thesis by (simp add: record_events_def)
qed

lemma enqueue_ready_queue:
  "enqueue_ready ns s = (r, s') \<Longrightarrow> \<exists>added. execution_queue s' = execution_queue s @ added"
proof (induction ns arbitrary: s)
  case Nil
  then show ?case by simp
next
  case (Cons a ns)
  show ?case
  proof (cases "map_of (nodes s) a")
    case None
    with Cons.prems show ?thesis by simp
  next
    case (Some n)
    let ?s1 = "if ready s n then s\<lparr>execution_queue := execution_queue s @ [n]\<rparr> else s"
    from Cons.prems Some have "enqueue_ready ns ?s1 = (r, s')" by simp
    from Cons.IH [OF this] obtain added where "execution_queue s' = execution_queue ?s1 @ added"
      by blast
    then show ?thesis by (cases "ready s n") simp_all
  qed
qed

lemma on_event_queue:
  "on_event ev s = (r, s') \<Longrightarrow> \<exists>added. execution_queue s' = execution_queue s @ added"
  by (auto simp: on_event_def split: StoredEvent.splits option.splits dest: enqueue_ready_queue)

lemma publish_queue:
  assumes "publish env ctx pn pt d consumed tn s = (r, s')"
  shows "\<exists>added. execution_queue s' = execution_queue s @ added"
  using assms
proof (cases rule: publish_cases)
  case (taken t ev r1)
  from on_event_queue [OF taken(3)] show ?thesis by simp
qed simp_all

lemma publish_all_queue:
  "publish_all env ctx n d consumed ts acc s = (r, s') \<Longrightarrow>
     \<exists>added. execution_queue s' = execution_queue s @ added"
proof (induction ts arbitrary: acc s)
  case Nil
  then show ?case by simp
next
  case (Cons t ts)
  obtain r1 s1 where
    pub: "publish env ctx (Node.name n) (Node.type n) d consumed (Topic.name t) s = (r1, s1)"
    by (cases "publish env ctx (Node.name n) (Node.type n) d consumed (Topic.name t) s")
  from publish_queue [OF pub] obtain a1 where a1: "execution_queue s1 = execution_queue s @ a1"
    by blast
  show ?case
  proof (cases r1)
    case (Inl x)
    with Cons.prems pub have "s' = s1" by (simp add: thn_def)
    with a1 show ?thesis by simp
  next
    case (Inr ev)
    with Cons.prems pub have "publish_all env ctx n d consumed ts
        (case ev of None \<Rightarrow> acc | Some e \<Rightarrow> acc @ [e]) s1 = (r, s')"
      by (simp add: thn_def)
    from Cons.IH [OF this] a1 show ?thesis by auto
  qed
qed

lemma publish_events_queue:
  assumes "publish_events env n ctx d consumed s = (r, s')"
  shows "\<exists>added. execution_queue s' = execution_queue s @ added"
proof -
  obtain r1 s1 where
    pa: "publish_all env ctx n d consumed (publish_to n) [] s = (r1, s1)"
    by (cases "publish_all env ctx n d consumed (publish_to n) [] s")
  from publish_all_queue [OF pa] obtain a1 where "execution_queue s1 = execution_queue s @ a1"
    by blast
  with assms pa show ?thesis
    by (cases r1) (auto simp: publish_events_def thn_def)
qed

lemma reaches_cong: "statics s' = statics s \<Longrightarrow> reaches s' n d = reaches s n d"
  by (simp add: reaches_def fun_eq_iff)

lemma run_body_frame:
  "execution_queue (run_body n consumed evs s) = execution_queue s"
  "topics (run_body n consumed evs s) = topics s"
  "event_store (run_body n consumed evs s) = event_store s @ map Other evs"
  "invoked (run_body n consumed evs s) = invoked s @ [(Node.name n, consumed)]"
  by (simp_all add: run_body_def)

lemma run_queue_step:
  assumes "execution_queue s = n # rest" and "step s = (Inr (), s')"
  shows "run_queue step (Suc fuel) s = run_queue step fuel s'"
  using assms by simp

lemma a_execute_node_Inr:
  assumes st: "a_execute_node env ctx n s0 = (Inr (), s')"
    and k: "keyed_by_name s0"
    and c: "fst (get_node_input env n s0) = consumed"
    and ne: "consumed \<noteq> []"
  shows "(\<exists>added. execution_queue s' = execution_queue s0 @ added)
     \<and> (streams n \<longrightarrow>
          invoked s' = invoked s0
          \<and> (\<exists>published.
                event_store s' = event_store s0 @ map Consume consumed @ published
                \<and> list_all (carries n consumed (generator_of n ctx consumed)) published
                \<and> reaches s0 n (generator_of n ctx consumed) published))
     \<and> (\<not> streams n \<longrightarrow>
          (\<exists>items node_events.
             Node.a_execute n ctx consumed (event_store s0) = (Inr items, node_events)
             \<and> invoked s' = invoked s0 @ [(Node.name n, consumed)]
             \<and> (\<exists>published.
                   event_store s' =
                     event_store s0 @ map Other node_events @ map Consume consumed @ published
                   \<and> list_all (carries n consumed (Many (concat (map chunk_messages items))))
                        published
                   \<and> reaches s0 n (Many (concat (map chunk_messages items))) published)))"
proof -
  let ?s1 = "snd (get_node_input env n s0)"
  note fr = get_node_input_frame [of env n s0]
  from fr have es: "event_store ?s1 = event_store s0" by (rule conjunct1)
  from fr have iv: "invoked ?s1 = invoked s0" by (rule conjunct1 [OF conjunct2])
  from fr have eq: "execution_queue ?s1 = execution_queue s0"
    by (rule conjunct1 [OF conjunct2 [OF conjunct2]])
  have sts: "statics ?s1 = statics s0" by (rule get_node_input_statics)
  from k have k1: "keyed_by_name ?s1" by (rule get_node_input_keyed)
  from ne obtain c0 cs where cons: "consumed = c0 # cs" by (cases consumed) auto
  show ?thesis
  proof (cases "streams n")
    case True
    let ?d = "generator_of n ctx consumed"
    from st c cons True have pe: "publish_events env n ctx ?d consumed ?s1 = (Inr (), s')"
      by (simp add: a_execute_node_def generator_of_def Let_def)
    from publish_events_queue [OF pe] eq
    have q: "\<exists>added. execution_queue s' = execution_queue s0 @ added" by simp
    from publish_events_Inr [OF pe k1] es iv reaches_cong [OF sts, of n ?d]
    have "invoked s' = invoked s0
          \<and> (\<exists>published.
                event_store s' = event_store s0 @ map Consume consumed @ published
                \<and> list_all (carries n consumed ?d) published
                \<and> reaches s0 n ?d published)"
      by simp
    with q True show ?thesis by simp
  next
    case False
    obtain r node_events where
      ae: "Node.a_execute n ctx consumed (event_store s0) = (r, node_events)"
      by (cases "Node.a_execute n ctx consumed (event_store s0)")
    from st c cons False ae es obtain items where r: "r = Inr items"
      by (cases r) (simp_all add: a_execute_node_def Let_def)
    let ?d = "Many (concat (map chunk_messages items))"
    let ?s2 = "run_body n consumed node_events ?s1"
    from st c cons False ae es r
    have pe: "publish_events env n ctx ?d consumed ?s2 = (Inr (), s')"
      by (simp add: a_execute_node_def Let_def)
    have k2: "keyed_by_name ?s2"
      using k1 keyed_cong [of ?s2 ?s1] by (simp add: run_body_frame)
    have sts2: "statics ?s2 = statics s0"
      using sts statics_cong [of ?s2 ?s1] by (simp add: run_body_frame)
    from publish_events_queue [OF pe] eq
    have q: "\<exists>added. execution_queue s' = execution_queue s0 @ added"
      by (simp add: run_body_frame)
    from publish_events_Inr [OF pe k2] es iv reaches_cong [OF sts2, of n ?d]
    have "invoked s' = invoked s0 @ [(Node.name n, consumed)]
          \<and> (\<exists>published.
                event_store s' =
                  event_store s0 @ map Other node_events @ map Consume consumed @ published
                \<and> list_all (carries n consumed ?d) published
                \<and> reaches s0 n ?d published)"
      by (simp add: run_body_frame)
    with q False ae r show ?thesis by blast
  qed
qed

text \<open>
  One round of the loop of \<^verbatim>\<open>a_execute\<close>. Let the loop take node \<open>n\<close> from the queue, let
  the node gather the events \<open>consumed\<close>, not none, and let the round end without an
  exception, in a workflow whose topics are registered under their names. Then the loop
  goes on with the rest of the queue, to which the round has only appended. If \<open>n\<close>
  is a streaming node, no node body has run, and what the round recorded is the consumed
  events and then events that carry the unread sequence to targets of \<open>n\<close>, one at
  least for each registered target whose condition takes it, an entry topic aside. If
  \<open>n\<close> is not a streaming node, its sequence was read to the end, and the events
  recorded carry the chunks, gathered in one list, in the same way.
\<close>

lemma a_execute_round:
  assumes "execution_queue s = n # rest"
    and "a_execute_step env ctx s = (Inr (), s')"
    and "keyed_by_name s"
    and "fst (get_node_input env n (s\<lparr>execution_queue := rest\<rparr>)) = consumed"
    and "consumed \<noteq> []"
  shows "(\<exists>added. execution_queue s' = rest @ added)
     \<and> run_queue (a_execute_step env ctx) (Suc fuel) s
         = run_queue (a_execute_step env ctx) fuel s'
     \<and> (streams n \<longrightarrow>
          invoked s' = invoked s
          \<and> (\<exists>published.
                event_store s' = event_store s @ map Consume consumed @ published
                \<and> list_all (carries n consumed (generator_of n ctx consumed)) published
                \<and> reaches s n (generator_of n ctx consumed) published))
     \<and> (\<not> streams n \<longrightarrow>
          (\<exists>items node_events.
             Node.a_execute n ctx consumed (event_store s) = (Inr items, node_events)
             \<and> invoked s' = invoked s @ [(Node.name n, consumed)]
             \<and> (\<exists>published.
                   event_store s' =
                     event_store s @ map Other node_events @ map Consume consumed @ published
                   \<and> list_all (carries n consumed (Many (concat (map chunk_messages items))))
                        published
                   \<and> reaches s n (Many (concat (map chunk_messages items))) published)))"
proof -
  let ?s0 = "s\<lparr>execution_queue := rest\<rparr>"
  from assms(1,2) have st: "a_execute_node env ctx n ?s0 = (Inr (), s')"
    by (simp add: a_execute_step_def)
  from assms(3) have k: "keyed_by_name ?s0"
    using keyed_cong [of ?s0 s] by simp
  have sts: "statics ?s0 = statics s" by (rule statics_cong) simp
  note node = a_execute_node_Inr [OF st k assms(4,5), unfolded reaches_cong [OF sts]]
  from assms(1,2)
  have "run_queue (a_execute_step env ctx) (Suc fuel) s
         = run_queue (a_execute_step env ctx) fuel s'"
    by (rule run_queue_step)
  with node show ?thesis by simp
qed

lemma a_execute_round_example:
  "map Node.name (execution_queue ex_two) = map Node.name (execution_queue ex_head)
   \<and> fst (a_execute_step ex_env ex_context ex_head) = Inr ()
   \<and> keyed_by_name ex_head
   \<and> fst (get_node_input ex_env ex_stream_node (ex_head\<lparr>execution_queue := [ex_entry_node]\<rparr>)) \<noteq> []
   \<and> streams ex_stream_node
   \<and> invoked (snd (a_execute_step ex_env ex_context ex_head)) = invoked ex_head
   \<and> run_queue (a_execute_step ex_env ex_context) (Suc 1) ex_head
       = run_queue (a_execute_step ex_env ex_context) 1 (snd (a_execute_step ex_env ex_context ex_head))"
proof -
  have q: "execution_queue ex_head = ex_stream_node # [ex_entry_node]"
    by (simp add: ex_head_def)
  have r: "fst (a_execute_step ex_env ex_context ex_head) = Inr ()" by code_simp
  then have st: "a_execute_step ex_env ex_context ex_head
      = (Inr (), snd (a_execute_step ex_env ex_context ex_head))"
    by (simp add: prod_eq_iff)
  have k: "keyed_by_name ex_head" by code_simp
  have ne: "fst (get_node_input ex_env ex_stream_node (ex_head\<lparr>execution_queue := [ex_entry_node]\<rparr>)) \<noteq> []"
    by code_simp
  have str: "streams ex_stream_node" by code_simp
  have same: "map Node.name (execution_queue ex_two) = map Node.name (execution_queue ex_head)"
    by code_simp
  from a_execute_round [OF q st k refl ne, of 1] str r k ne same
  show ?thesis by simp
qed

text \<open>
  C5 fails for the streaming node. Two nodes read the entry topic, the first a streaming
  node. The comment in the streaming branch says that the generator is returned to the
  caller, and so does the claim. The run returns nothing (\<open>Inr ()\<close>): the generator,
  unread, is the data of the event published to the terminal topic. And the queue is
  processed further: the body of the second node is run after it, and its events are
  recorded behind those of the streaming node.
\<close>

theorem streaming_node_does_not_end_the_run:
  "outcome (a_execute ex_env ex_context [ex_message] 5
              (start (ex_built [ex_stream_node, ex_entry_node]) []))
   = Some (Inr (),
       [Some (''EventDrivenWorkflow'', AGENT_INPUT_TOPIC, Many [ex_message]),
        Some (''n4'', AGENT_INPUT_TOPIC, Many [ex_message]),
        Some (''n4'', AGENT_OUTPUT_TOPIC,
              Live \<lparr>suspended_node = ''n4'', suspended_context = ex_context,
                     suspended_input = [''ee'']\<rparr>),
        Some (''n1'', AGENT_INPUT_TOPIC, Many [ex_message]),
        Some (''n1'', AGENT_OUTPUT_TOPIC, Many [ex_message])],
       [''n1''])"
  by code_simp

end
